theory Spec2Isabelle
  imports Main "HOL-Library.Word"
begin

section \<open>Data model of main.c\<close>

text \<open>
  The program is one C file on top of the ESP-IDF drivers (NVS flash, UART, Wi-Fi, MQTT).
  The drivers are the environment: the flash is a key/value map with fault codes, the UART
  receive side is the finite list of what each \<^verbatim>\<open>uart_read_bytes\<close> call will see, the
  event loop is a list of event batches, one batch delivered during each blocking call.
  A C \<^verbatim>\<open>char\<close> or \<^verbatim>\<open>uint8_t\<close> is a HOL \<^typ>\<open>char\<close> (eight bits), a \<^verbatim>\<open>char[n]\<close> array
  is a \<^typ>\<open>char list\<close> of length n, and the C string held by an array is what comes before
  the first NUL.
\<close>

type_synonym buffer = "char list"

abbreviation NUL :: char where "NUL \<equiv> CHR 0x00"
abbreviation BS :: char where "BS \<equiv> CHR 0x08"
abbreviation LF :: char where "LF \<equiv> CHR 0x0A"
abbreviation CR :: char where "CR \<equiv> CHR 0x0D"
abbreviation DEL :: char where "DEL \<equiv> CHR 0x7F"

definition nl :: string where
  "nl = [LF]"

definition cstr :: "buffer \<Rightarrow> string" where
  "cstr b = takeWhile (\<lambda>c. c \<noteq> NUL) b"

definition memset0 :: "buffer \<Rightarrow> nat \<Rightarrow> buffer" where
  "memset0 b n = replicate (min n (length b)) NUL @ drop n b"

text \<open>\<^verbatim>\<open>strncpy(dst, src, n)\<close> into a zeroed destination of n bytes.\<close>

definition strncpy :: "buffer \<Rightarrow> nat \<Rightarrow> buffer" where
  "strncpy src n = take n (cstr src) @ replicate (n - length (cstr src)) NUL"

datatype esp_err =
    ESP_OK
  | ESP_FAIL
  | ESP_ERR_NVS_NOT_FOUND
  | ESP_ERR_NVS_INVALID_LENGTH
  | ESP_ERR_OTHER nat

subsection \<open>The NVS flash driver\<close>

text \<open>
  The namespace \<^verbatim>\<open>"storage"\<close> either does not exist yet or maps keys to strings. Opening a
  missing namespace read-only fails with \<^verbatim>\<open>ESP_ERR_NVS_NOT_FOUND\<close>; opening it read-write
  creates it. The three fault fields are the codes the medium answers with
  (\<^const>\<open>ESP_OK\<close> when it works). A successful \<^verbatim>\<open>nvs_set_str\<close> is taken to reach the
  flash at once; \<^verbatim>\<open>nvs_commit\<close> only reports its code.
\<close>

record nvs_flash =
  open_fault :: esp_err
  set_fault :: esp_err
  commit_fault :: esp_err
  storage :: "(string \<rightharpoonup> string) option"

datatype nvs_open_mode = NVS_READONLY | NVS_READWRITE

definition nvs_open :: "nvs_open_mode \<Rightarrow> nvs_flash \<Rightarrow> esp_err \<times> nvs_flash" where
  "nvs_open mode fl =
     (if open_fault fl \<noteq> ESP_OK then (open_fault fl, fl)
      else case storage fl of
             Some m \<Rightarrow> (ESP_OK, fl)
           | None \<Rightarrow> (if mode = NVS_READONLY then (ESP_ERR_NVS_NOT_FOUND, fl)
                      else (ESP_OK, fl\<lparr>storage := Some Map.empty\<rparr>)))"

text \<open>
  \<^verbatim>\<open>nvs_get_str(handle, key, out_value, &length)\<close> on an open handle. With
  \<^verbatim>\<open>out_value == NULL\<close> (\<^const>\<open>None\<close>) it only reports the size the value needs, its
  terminating NUL included. Otherwise it copies the value and its NUL to the front of the
  buffer when \<^verbatim>\<open>length\<close> is enough, and answers \<^verbatim>\<open>ESP_ERR_NVS_INVALID_LENGTH\<close> when not.
\<close>

definition nvs_get_str ::
  "nvs_flash \<Rightarrow> string \<Rightarrow> buffer option \<Rightarrow> nat \<Rightarrow> esp_err \<times> buffer option \<times> nat" where
  "nvs_get_str fl key out_value len =
     (case storage fl of
        None \<Rightarrow> (ESP_ERR_NVS_NOT_FOUND, out_value, len)
      | Some m \<Rightarrow>
          (case m key of
             None \<Rightarrow> (ESP_ERR_NVS_NOT_FOUND, out_value, len)
           | Some v \<Rightarrow>
               (case out_value of
                  None \<Rightarrow> (ESP_OK, None, length v + 1)
                | Some buf \<Rightarrow>
                    if len < length v + 1 then (ESP_ERR_NVS_INVALID_LENGTH, Some buf, len)
                    else (ESP_OK, Some (v @ [NUL] @ drop (length v + 1) buf), length v + 1))))"

definition nvs_set_str :: "string \<Rightarrow> string \<Rightarrow> nvs_flash \<Rightarrow> esp_err \<times> nvs_flash" where
  "nvs_set_str key v fl =
     (if set_fault fl \<noteq> ESP_OK then (set_fault fl, fl)
      else (ESP_OK, fl\<lparr>storage := Some ((case storage fl of None \<Rightarrow> Map.empty | Some m \<Rightarrow> m)(key \<mapsto> v))\<rparr>))"

definition nvs_commit :: "nvs_flash \<Rightarrow> esp_err" where
  "nvs_commit fl = commit_fault fl"

subsection \<open>Load from NVS\<close>

text \<open>
  \<^verbatim>\<open>load_from_nvs(key, buffer, max_len)\<close>. The local \<^verbatim>\<open>required_size\<close> is uninitialised in
  the source; the first \<^verbatim>\<open>nvs_get_str\<close> call, with a NULL destination, never reads it, so the
  model passes 0. The second call is made only under \<^verbatim>\<open>err == ESP_OK && required_size <= max_len\<close>;
  in every other case \<^verbatim>\<open>err\<close> of the first call is what is returned.
\<close>

definition load_from_nvs :: "nvs_flash \<Rightarrow> string \<Rightarrow> buffer \<Rightarrow> nat \<Rightarrow> esp_err \<times> buffer" where
  "load_from_nvs fl key buf max_len =
     (case nvs_open NVS_READONLY fl of (err, fl1) \<Rightarrow>
        if err \<noteq> ESP_OK then (err, buf)
        else
          (case nvs_get_str fl1 key None 0 of (err1, _, required_size) \<Rightarrow>
             if err1 = ESP_OK \<and> required_size \<le> max_len then
               (case nvs_get_str fl1 key (Some buf) required_size of
                  (err2, out, _) \<Rightarrow> (err2, (case out of Some b \<Rightarrow> b | None \<Rightarrow> buf)))
             else (err1, buf)))"

section \<open>Program state, drivers and event handlers\<close>

text \<open>
  The globals of main.c (\<^verbatim>\<open>wifi_connected\<close>, \<^verbatim>\<open>mqtt_connected\<close>, the four buffers), the
  environment (flash, UART input, pending event batches, the hardware random numbers and
  the answers of the MQTT client to publish calls), and two logs: \<open>trace\<close> is what the
  main task did, in order, and \<open>handler_trace\<close> is what the event handlers did.
  \<open>mqtt_registered\<close> says that \<^verbatim>\<open>start_mqtt\<close> has registered \<^verbatim>\<open>mqtt_event_handler\<close>.
\<close>

datatype rx = No_byte | Byte char

datatype wifi_event_id = WIFI_EVENT_STA_START | WIFI_EVENT_STA_DISCONNECTED | WIFI_EVENT_OTHER
datatype ip_event_id = IP_EVENT_STA_GOT_IP | IP_EVENT_OTHER
datatype mqtt_event_id = MQTT_EVENT_CONNECTED | MQTT_EVENT_DISCONNECTED | MQTT_EVENT_OTHER

datatype event = WIFI_EVENT wifi_event_id | IP_EVENT ip_event_id | MQTT_EVENT mqtt_event_id

datatype log_level = LOG_I | LOG_W

datatype action =
    Printf string
  | Uart_write string
  | Esp_log log_level string
  | Task_delay nat
  | Wifi_set_mode_sta
  | Wifi_set_config buffer buffer
  | Wifi_start
  | Wifi_connect
  | Wifi_stop
  | Nvs_set_str string string
  | Mqtt_client_start string
  | Mqtt_publish (pub_topic: string) (pub_data: string) (pub_len: nat) (pub_qos: nat) (pub_retain: nat)

record state =
  wifi_connected :: bool
  mqtt_connected :: bool
  mqtt_registered :: bool
  ssid :: buffer
  wifi_pass :: buffer
  mqtt_broker :: buffer
  mqtt_topic :: buffer
  nvs :: nvs_flash
  uart_rx :: "rx list"
  events :: "event list list"
  rng :: "nat \<Rightarrow> 32 word"
  rng_calls :: nat
  publish_ret :: "nat \<Rightarrow> int"
  publish_calls :: nat
  trace :: "action list"
  handler_trace :: "action list"

text \<open>A call either returns or spins for ever on an input that never comes.\<close>

datatype 'a outcome = Ret 'a | Blocked state

definition emit :: "action \<Rightarrow> state \<Rightarrow> state" where
  "emit a s = s\<lparr>trace := trace s @ [a]\<rparr>"

definition handler_emit :: "action \<Rightarrow> state \<Rightarrow> state" where
  "handler_emit a s = s\<lparr>handler_trace := handler_trace s @ [a]\<rparr>"

definition wifi_event_handler :: "event \<Rightarrow> state \<Rightarrow> state" where
  "wifi_event_handler ev s =
     (if ev = WIFI_EVENT WIFI_EVENT_STA_START then handler_emit Wifi_connect s
      else if ev = WIFI_EVENT WIFI_EVENT_STA_DISCONNECTED then s\<lparr>wifi_connected := False\<rparr>
      else if ev = IP_EVENT IP_EVENT_STA_GOT_IP then
        handler_emit (Esp_log LOG_I ''Wi-Fi Connected! IP Obtained.'') (s\<lparr>wifi_connected := True\<rparr>)
      else s)"

definition mqtt_event_handler :: "mqtt_event_id \<Rightarrow> state \<Rightarrow> state" where
  "mqtt_event_handler event_id s =
     (if event_id = MQTT_EVENT_CONNECTED then
        handler_emit (Esp_log LOG_I ''MQTT Connected.'') (s\<lparr>mqtt_connected := True\<rparr>)
      else if event_id = MQTT_EVENT_DISCONNECTED then
        handler_emit (Esp_log LOG_W ''MQTT Disconnected.'') (s\<lparr>mqtt_connected := False\<rparr>)
      else s)"

text \<open>
  The registrations of \<^verbatim>\<open>wifi_stack_init\<close> and \<^verbatim>\<open>start_mqtt\<close>: every Wi-Fi event and the
  got-IP event go to \<open>wifi_event_handler\<close>, every event of the MQTT client to
  \<open>mqtt_event_handler\<close> once it is registered.
\<close>

definition dispatch :: "event \<Rightarrow> state \<Rightarrow> state" where
  "dispatch ev s =
     (case ev of
        WIFI_EVENT _ \<Rightarrow> wifi_event_handler ev s
      | IP_EVENT i \<Rightarrow> (if i = IP_EVENT_STA_GOT_IP then wifi_event_handler ev s else s)
      | MQTT_EVENT i \<Rightarrow> (if mqtt_registered s then mqtt_event_handler i s else s))"

definition run_handlers :: "event list \<Rightarrow> state \<Rightarrow> state" where
  "run_handlers evs s = foldl (\<lambda>t ev. dispatch ev t) s evs"

text \<open>During a blocking call the event task delivers the next batch, if there is one.\<close>

definition deliver :: "state \<Rightarrow> state" where
  "deliver s =
     (case events s of
        [] \<Rightarrow> s
      | evs # rest \<Rightarrow> run_handlers evs (s\<lparr>events := rest\<rparr>))"

definition vTaskDelay :: "nat \<Rightarrow> state \<Rightarrow> state" where
  "vTaskDelay ms s = deliver (emit (Task_delay ms) s)"

definition printf :: "string \<Rightarrow> state \<Rightarrow> state" where
  "printf str s = emit (Printf str) s"

definition uart_write_bytes :: "string \<Rightarrow> state \<Rightarrow> state" where
  "uart_write_bytes str s = emit (Uart_write str) s"

subsection \<open>The four credential buffers\<close>

datatype cred = Ssid | Wifi_pass | Mqtt_broker | Mqtt_topic

fun get_buf :: "cred \<Rightarrow> state \<Rightarrow> buffer" where
  "get_buf Ssid s = ssid s"
| "get_buf Wifi_pass s = wifi_pass s"
| "get_buf Mqtt_broker s = mqtt_broker s"
| "get_buf Mqtt_topic s = mqtt_topic s"

fun set_buf :: "cred \<Rightarrow> buffer \<Rightarrow> state \<Rightarrow> state" where
  "set_buf Ssid b s = s\<lparr>ssid := b\<rparr>"
| "set_buf Wifi_pass b s = s\<lparr>wifi_pass := b\<rparr>"
| "set_buf Mqtt_broker b s = s\<lparr>mqtt_broker := b\<rparr>"
| "set_buf Mqtt_topic b s = s\<lparr>mqtt_topic := b\<rparr>"

text \<open>\<^verbatim>\<open>sizeof\<close> of the four arrays.\<close>

fun sizeof_buf :: "cred \<Rightarrow> nat" where
  "sizeof_buf Ssid = 32"
| "sizeof_buf Wifi_pass = 64"
| "sizeof_buf Mqtt_broker = 64"
| "sizeof_buf Mqtt_topic = 64"

definition buffers_ok :: "state \<Rightarrow> bool" where
  "buffers_ok s \<longleftrightarrow>
     length (ssid s) = 32 \<and> length (wifi_pass s) = 64 \<and>
     length (mqtt_broker s) = 64 \<and> length (mqtt_topic s) = 64"

subsection \<open>Frame lemmas: what the handlers and the output primitives leave alone\<close>

lemma dispatch_frame [simp]:
  "ssid (dispatch ev s) = ssid s"
  "wifi_pass (dispatch ev s) = wifi_pass s"
  "mqtt_broker (dispatch ev s) = mqtt_broker s"
  "mqtt_topic (dispatch ev s) = mqtt_topic s"
  "nvs (dispatch ev s) = nvs s"
  "uart_rx (dispatch ev s) = uart_rx s"
  "events (dispatch ev s) = events s"
  "rng (dispatch ev s) = rng s"
  "rng_calls (dispatch ev s) = rng_calls s"
  "publish_ret (dispatch ev s) = publish_ret s"
  "publish_calls (dispatch ev s) = publish_calls s"
  "trace (dispatch ev s) = trace s"
  "mqtt_registered (dispatch ev s) = mqtt_registered s"
  by (simp_all add: dispatch_def wifi_event_handler_def mqtt_event_handler_def handler_emit_def
      split: event.splits)

lemma run_handlers_frame [simp]:
  "ssid (run_handlers evs s) = ssid s"
  "wifi_pass (run_handlers evs s) = wifi_pass s"
  "mqtt_broker (run_handlers evs s) = mqtt_broker s"
  "mqtt_topic (run_handlers evs s) = mqtt_topic s"
  "nvs (run_handlers evs s) = nvs s"
  "uart_rx (run_handlers evs s) = uart_rx s"
  "events (run_handlers evs s) = events s"
  "rng (run_handlers evs s) = rng s"
  "rng_calls (run_handlers evs s) = rng_calls s"
  "publish_ret (run_handlers evs s) = publish_ret s"
  "publish_calls (run_handlers evs s) = publish_calls s"
  "trace (run_handlers evs s) = trace s"
  "mqtt_registered (run_handlers evs s) = mqtt_registered s"
  unfolding run_handlers_def by (induction evs arbitrary: s; simp)+

lemma deliver_frame [simp]:
  "ssid (deliver s) = ssid s"
  "wifi_pass (deliver s) = wifi_pass s"
  "mqtt_broker (deliver s) = mqtt_broker s"
  "mqtt_topic (deliver s) = mqtt_topic s"
  "nvs (deliver s) = nvs s"
  "uart_rx (deliver s) = uart_rx s"
  "rng (deliver s) = rng s"
  "rng_calls (deliver s) = rng_calls s"
  "publish_ret (deliver s) = publish_ret s"
  "publish_calls (deliver s) = publish_calls s"
  "trace (deliver s) = trace s"
  "mqtt_registered (deliver s) = mqtt_registered s"
  by (simp_all add: deliver_def split: list.splits)

lemma events_deliver [simp]: "events (deliver s) = tl (events s)"
  by (simp add: deliver_def split: list.splits)

lemma emit_frame [simp]:
  "wifi_connected (emit a s) = wifi_connected s"
  "mqtt_connected (emit a s) = mqtt_connected s"
  "mqtt_registered (emit a s) = mqtt_registered s"
  "ssid (emit a s) = ssid s"
  "wifi_pass (emit a s) = wifi_pass s"
  "mqtt_broker (emit a s) = mqtt_broker s"
  "mqtt_topic (emit a s) = mqtt_topic s"
  "nvs (emit a s) = nvs s"
  "uart_rx (emit a s) = uart_rx s"
  "events (emit a s) = events s"
  "rng (emit a s) = rng s"
  "rng_calls (emit a s) = rng_calls s"
  "publish_ret (emit a s) = publish_ret s"
  "publish_calls (emit a s) = publish_calls s"
  "handler_trace (emit a s) = handler_trace s"
  "trace (emit a s) = trace s @ [a]"
  by (simp_all add: emit_def)

lemma get_buf_frame [simp]:
  "get_buf b (emit a s) = get_buf b s"
  "get_buf b (deliver s) = get_buf b s"
  "get_buf b (s\<lparr>uart_rx := r\<rparr>) = get_buf b s"
  by (cases b; simp)+

lemma set_buf_frame [simp]:
  "wifi_connected (set_buf b v s) = wifi_connected s"
  "mqtt_connected (set_buf b v s) = mqtt_connected s"
  "mqtt_registered (set_buf b v s) = mqtt_registered s"
  "nvs (set_buf b v s) = nvs s"
  "uart_rx (set_buf b v s) = uart_rx s"
  "events (set_buf b v s) = events s"
  "rng (set_buf b v s) = rng s"
  "rng_calls (set_buf b v s) = rng_calls s"
  "publish_ret (set_buf b v s) = publish_ret s"
  "publish_calls (set_buf b v s) = publish_calls s"
  "trace (set_buf b v s) = trace s"
  "handler_trace (set_buf b v s) = handler_trace s"
  "get_buf b (set_buf b v s) = v"
  by (cases b; simp)+

lemma get_buf_set_buf_other [simp]: "b \<noteq> b' \<Longrightarrow> get_buf b (set_buf b' v s) = get_buf b s"
  by (cases b; cases b'; simp)

section \<open>The functions of main.c\<close>

subsection \<open>Reading a line from the UART\<close>

lemma prim_frame [simp]:
  "uart_rx (printf str s) = uart_rx s"
  "uart_rx (uart_write_bytes str s) = uart_rx s"
  "uart_rx (vTaskDelay ms s) = uart_rx s"
  "nvs (printf str s) = nvs s"
  "nvs (uart_write_bytes str s) = nvs s"
  "nvs (vTaskDelay ms s) = nvs s"
  "get_buf b (printf str s) = get_buf b s"
  "get_buf b (uart_write_bytes str s) = get_buf b s"
  "get_buf b (vTaskDelay ms s) = get_buf b s"
  "trace (printf str s) = trace s @ [Printf str]"
  "trace (uart_write_bytes str s) = trace s @ [Uart_write str]"
  "trace (vTaskDelay ms s) = trace s @ [Task_delay ms]"
  by (simp_all add: printf_def uart_write_bytes_def vTaskDelay_def)

definition size_sub1 :: "nat \<Rightarrow> nat" where
  "size_sub1 len = (len + 2 ^ 32 - 1) mod 2 ^ 32"

definition printable :: "char \<Rightarrow> bool" where
  "printable ch \<longleftrightarrow> 32 \<le> (of_char ch :: nat) \<and> (of_char ch :: nat) \<le> 126"

text \<open>
  One \<^verbatim>\<open>uart_read_bytes(UART_PORT_NUM, &ch, 1, timeout)\<close> call: the next entry of the
  receive list, a byte or a timeout, while the event task runs. \<^const>\<open>None\<close> stands for an
  exhausted list: this call and every later one time out.
\<close>

definition uart_read_bytes :: "state \<Rightarrow> (rx \<times> state) option" where
  "uart_read_bytes s =
     (case uart_rx s of
        [] \<Rightarrow> None
      | r # rest \<Rightarrow> Some (r, deliver (s\<lparr>uart_rx := rest\<rparr>)))"

lemma uart_read_bytes_consumes:
  "uart_read_bytes s = Some (r, s1) \<Longrightarrow> length (uart_rx s1) < length (uart_rx s)"
  by (auto simp: uart_read_bytes_def split: list.splits)

function read_loop :: "cred \<Rightarrow> nat \<Rightarrow> bool \<Rightarrow> nat \<Rightarrow> state \<Rightarrow> (nat \<times> state) outcome" where
  "read_loop b len masked i s =
     (if \<not> i < size_sub1 len then Ret (i, s)
      else
        (case uart_read_bytes s of
           None \<Rightarrow> Blocked s
         | Some (No_byte, s1) \<Rightarrow> read_loop b len masked i s1
         | Some (Byte ch, s1) \<Rightarrow>
             if ch = CR \<or> ch = LF then Ret (i, uart_write_bytes nl s1)
             else if ch = BS \<or> ch = DEL then
               (if 0 < i then read_loop b len masked (i - 1) (uart_write_bytes [BS, CHR '' '', BS] s1)
                else read_loop b len masked i s1)
             else if 32 \<le> (of_char ch :: nat) \<and> (of_char ch :: nat) \<le> 126 then
               read_loop b len masked (i + 1)
                 (uart_write_bytes (if masked then ''*'' else [ch])
                    (set_buf b ((get_buf b s1)[i := ch]) s1))
             else read_loop b len masked i s1))"
  by pat_completeness auto
termination
  by (relation "measure (\<lambda>(b, len, masked, i, s). length (uart_rx s))")
     (auto dest: uart_read_bytes_consumes)

declare read_loop.simps [simp del]

lemma size_sub1_pos [simp]: "0 < len \<Longrightarrow> len < 2 ^ 32 \<Longrightarrow> size_sub1 len = len - 1"
proof -
  assume a: "0 < len" "len < 2 ^ 32"
  then obtain k where k: "len = Suc k" by (cases len) auto
  have "(len + 2 ^ 32 - 1) = k + 2 ^ 32" using k by simp
  then have "size_sub1 len = (k + 2 ^ 32) mod 2 ^ 32" by (simp only: size_sub1_def)
  also have "\<dots> = k" using a k by simp
  finally show ?thesis using k by simp
qed

lemma read_loop_done: "\<not> i < size_sub1 len \<Longrightarrow> read_loop b len masked i s = Ret (i, s)"
  by (subst read_loop.simps) simp

lemma read_loop_empty:
  "i < size_sub1 len \<Longrightarrow> uart_rx s = [] \<Longrightarrow> read_loop b len masked i s = Blocked s"
  by (subst read_loop.simps) (simp add: uart_read_bytes_def)

lemma read_loop_No_byte:
  "i < size_sub1 len \<Longrightarrow> uart_rx s = No_byte # rest \<Longrightarrow>
   read_loop b len masked i s = read_loop b len masked i (deliver (s\<lparr>uart_rx := rest\<rparr>))"
  by (subst read_loop.simps) (simp add: uart_read_bytes_def)

lemma read_loop_terminator:
  "i < size_sub1 len \<Longrightarrow> uart_rx s = Byte ch # rest \<Longrightarrow> ch = CR \<or> ch = LF \<Longrightarrow>
   read_loop b len masked i s = Ret (i, uart_write_bytes nl (deliver (s\<lparr>uart_rx := rest\<rparr>)))"
  by (subst read_loop.simps) (simp add: uart_read_bytes_def)

lemma read_loop_erase:
  "i < size_sub1 len \<Longrightarrow> uart_rx s = Byte ch # rest \<Longrightarrow> ch = BS \<or> ch = DEL \<Longrightarrow> 0 < i \<Longrightarrow>
   read_loop b len masked i s =
     read_loop b len masked (i - 1)
       (uart_write_bytes [BS, CHR '' '', BS] (deliver (s\<lparr>uart_rx := rest\<rparr>)))"
  by (subst read_loop.simps) (auto simp: uart_read_bytes_def)

lemma read_loop_erase_empty:
  "i < size_sub1 len \<Longrightarrow> uart_rx s = Byte ch # rest \<Longrightarrow> ch = BS \<or> ch = DEL \<Longrightarrow> i = 0 \<Longrightarrow>
   read_loop b len masked i s = read_loop b len masked i (deliver (s\<lparr>uart_rx := rest\<rparr>))"
  by (subst read_loop.simps) (auto simp: uart_read_bytes_def)

lemma read_loop_printable:
  "i < size_sub1 len \<Longrightarrow> uart_rx s = Byte ch # rest \<Longrightarrow> printable ch \<Longrightarrow>
   read_loop b len masked i s =
     read_loop b len masked (i + 1)
       (uart_write_bytes (if masked then ''*'' else [ch])
          (set_buf b ((get_buf b (deliver (s\<lparr>uart_rx := rest\<rparr>)))[i := ch])
             (deliver (s\<lparr>uart_rx := rest\<rparr>))))"
  by (subst read_loop.simps) (auto simp: uart_read_bytes_def printable_def)

lemma read_loop_discard:
  "i < size_sub1 len \<Longrightarrow> uart_rx s = Byte ch # rest \<Longrightarrow> \<not> printable ch \<Longrightarrow>
   ch \<noteq> CR \<Longrightarrow> ch \<noteq> LF \<Longrightarrow> ch \<noteq> BS \<Longrightarrow> ch \<noteq> DEL \<Longrightarrow>
   read_loop b len masked i s = read_loop b len masked i (deliver (s\<lparr>uart_rx := rest\<rparr>))"
  by (subst read_loop.simps) (auto simp: uart_read_bytes_def printable_def)

lemma printable_not_control:
  "printable ch \<Longrightarrow> ch \<noteq> NUL \<and> ch \<noteq> CR \<and> ch \<noteq> LF \<and> ch \<noteq> BS \<and> ch \<noteq> DEL"
  by (auto simp: printable_def)


text \<open>
  \<^verbatim>\<open>read_input(prompt, buffer, len, mask)\<close>: print the prompt, zero the buffer, run the loop,
  terminate the string at index i.
\<close>

definition read_input :: "string \<Rightarrow> cred \<Rightarrow> nat \<Rightarrow> bool \<Rightarrow> state \<Rightarrow> state outcome" where
  "read_input prompt b len masked s =
     (let s1 = printf prompt s;
          s2 = set_buf b (memset0 (get_buf b s1) len) s1
      in case read_loop b len masked 0 s2 of
           Blocked s3 \<Rightarrow> Blocked s3
         | Ret (i, s3) \<Rightarrow> Ret (set_buf b ((get_buf b s3)[i := NUL]) s3))"

lemma cstr_terminated:
  "j < length buf \<Longrightarrow> NUL \<notin> set (take j buf) \<Longrightarrow> cstr (buf[j := NUL]) = take j buf"
proof -
  assume a: "j < length buf" "NUL \<notin> set (take j buf)"
  have "buf[j := NUL] = take j buf @ NUL # drop (Suc j) buf"
    using a(1) by (rule upd_conv_take_nth_drop)
  then show ?thesis using a(2) by (auto simp add: cstr_def takeWhile_tail)
qed

lemma length_memset0 [simp]: "length (memset0 b n) = length b"
  by (simp add: memset0_def)

lemma read_loop_unfold_rx:
  assumes run: "read_loop b len masked i s = Ret (j, s')" and lt: "i < size_sub1 len"
  shows "\<exists>s1::state. length (uart_rx s1) < length (uart_rx s) \<and>
           (uart_rx s' = uart_rx s1 \<or>
            (\<exists>i2 s2. read_loop b len masked i2 s2 = Ret (j, s') \<and> uart_rx s2 = uart_rx s1))"
proof -
  from run lt obtain r rest where rx: "uart_rx s = r # rest"
    by (cases "uart_rx s") (simp_all add: read_loop_empty)
  let ?s1 = "deliver (s\<lparr>uart_rx := rest\<rparr>)"
  have len: "length (uart_rx ?s1) < length (uart_rx s)" using rx by simp
  have "uart_rx s' = uart_rx ?s1 \<or>
        (\<exists>i2 s2. read_loop b len masked i2 s2 = Ret (j, s') \<and> uart_rx s2 = uart_rx ?s1)"
  proof (cases r)
    case No_byte
    with run lt rx have "read_loop b len masked i ?s1 = Ret (j, s')"
      by (simp add: read_loop_No_byte)
    then show ?thesis by blast
  next
    case (Byte ch)
    consider (eol) "ch = CR \<or> ch = LF"
      | (erase) "ch = BS \<or> ch = DEL" "0 < i"
      | (erase0) "ch = BS \<or> ch = DEL" "i = 0"
      | (print) "printable ch"
      | (other) "\<not> printable ch" "ch \<noteq> CR" "ch \<noteq> LF" "ch \<noteq> BS" "ch \<noteq> DEL"
      by auto
    then show ?thesis
    proof cases
      case eol
      with run lt rx Byte have "s' = uart_write_bytes nl ?s1"
        by (simp add: read_loop_terminator)
      then show ?thesis by simp
    next
      case erase
      let ?s2 = "uart_write_bytes [BS, CHR '' '', BS] ?s1"
      from erase run lt rx Byte have "read_loop b len masked (i - 1) ?s2 = Ret (j, s')"
        by (simp add: read_loop_erase)
      moreover have "uart_rx ?s2 = uart_rx ?s1" by simp
      ultimately show ?thesis by blast
    next
      case erase0
      with run lt rx Byte have "read_loop b len masked i ?s1 = Ret (j, s')"
        by (simp add: read_loop_erase_empty)
      then show ?thesis by blast
    next
      case print
      let ?s2 = "uart_write_bytes (if masked then ''*'' else [ch])
                   (set_buf b ((get_buf b ?s1)[i := ch]) ?s1)"
      from print run lt rx Byte have "read_loop b len masked (i + 1) ?s2 = Ret (j, s')"
        by (simp add: read_loop_printable)
      moreover have "uart_rx ?s2 = uart_rx ?s1" by simp
      ultimately show ?thesis by blast
    next
      case other
      with run lt rx Byte have "read_loop b len masked i ?s1 = Ret (j, s')"
        by (simp add: read_loop_discard)
      then show ?thesis by blast
    qed
  qed
  with len show ?thesis by blast
qed

lemma read_loop_consumes_le:
  "read_loop b len masked i s = Ret (j, s') \<Longrightarrow> length (uart_rx s') \<le> length (uart_rx s)"
proof (induction "length (uart_rx s)" arbitrary: s i rule: less_induct)
  case less
  show ?case
  proof (cases "i < size_sub1 len")
    case False
    with less.prems show ?thesis by (simp add: read_loop_done)
  next
    case True
    from read_loop_unfold_rx [OF less.prems True] obtain s1 :: state where
      lt: "length (uart_rx s1) < length (uart_rx s)" and
      alt: "uart_rx s' = uart_rx s1 \<or>
            (\<exists>i2 s2. read_loop b len masked i2 s2 = Ret (j, s') \<and> uart_rx s2 = uart_rx s1)"
      by blast
    from alt show ?thesis
    proof
      assume "uart_rx s' = uart_rx s1"
      with lt show ?thesis by simp
    next
      assume "\<exists>i2 s2. read_loop b len masked i2 s2 = Ret (j, s') \<and> uart_rx s2 = uart_rx s1"
      then obtain i2 s2 where r2: "read_loop b len masked i2 s2 = Ret (j, s')"
        and rx2: "uart_rx s2 = uart_rx s1" by blast
      have "length (uart_rx s') \<le> length (uart_rx s2)"
        using less.hyps [of s2 i2] r2 rx2 lt by simp
      with rx2 lt show ?thesis by simp
    qed
  qed
qed

lemma read_loop_consumes:
  assumes "read_loop b len masked i s = Ret (j, s')" and "i < size_sub1 len"
  shows "length (uart_rx s') < length (uart_rx s)"
  using read_loop_unfold_rx [OF assms] by (auto dest!: read_loop_consumes_le)

lemma read_input_consumes:
  assumes "read_input prompt b len masked s = Ret s'" and "0 < size_sub1 len"
  shows "length (uart_rx s') < length (uart_rx s)"
proof -
  let ?s2 = "set_buf b (memset0 (get_buf b (printf prompt s)) len) (printf prompt s)"
  from assms(1) obtain i s3 where r: "read_loop b len masked 0 ?s2 = Ret (i, s3)"
    and s': "s' = set_buf b ((get_buf b s3)[i := NUL]) s3"
    by (auto simp: read_input_def Let_def split: outcome.splits prod.splits)
  from read_loop_consumes [OF r assms(2)] s' show ?thesis by simp
qed


subsection \<open>Wi-Fi link attempt\<close>

definition esp_wifi_set_mode :: "state \<Rightarrow> state" where
  "esp_wifi_set_mode s = emit Wifi_set_mode_sta s"

definition esp_wifi_set_config :: "buffer \<Rightarrow> buffer \<Rightarrow> state \<Rightarrow> state" where
  "esp_wifi_set_config sta_ssid sta_password s = emit (Wifi_set_config sta_ssid sta_password) s"

definition esp_wifi_start :: "state \<Rightarrow> state" where
  "esp_wifi_start s = emit Wifi_start s"

definition esp_wifi_connect :: "state \<Rightarrow> state" where
  "esp_wifi_connect s = emit Wifi_connect s"

definition esp_wifi_stop :: "state \<Rightarrow> state" where
  "esp_wifi_stop s = emit Wifi_stop s"

text \<open>The wait loop of \<^verbatim>\<open>attempt_wifi_connect\<close>; it returns the final \<^verbatim>\<open>attempts\<close> too.\<close>

function wait_connected :: "nat \<Rightarrow> state \<Rightarrow> nat \<times> state" where
  "wait_connected attempts s =
     (if \<not> wifi_connected s \<and> attempts < 80
      then wait_connected (attempts + 1) (vTaskDelay 100 s)
      else (attempts, s))"
  by pat_completeness auto
termination
  by (relation "measure (\<lambda>(attempts, s). 80 - attempts)") auto

declare wait_connected.simps [simp del]

definition attempt_wifi_connect :: "state \<Rightarrow> esp_err \<times> state" where
  "attempt_wifi_connect s =
     (let s1 = s\<lparr>wifi_connected := False\<rparr>;
          s2 = esp_wifi_set_mode s1;
          s3 = esp_wifi_set_config (strncpy (ssid s2) 32) (strncpy (wifi_pass s2) 64) s2;
          s4 = esp_wifi_start s3;
          s5 = esp_wifi_connect s4;
          s6 = snd (wait_connected 0 s5)
      in (if wifi_connected s6 then ESP_OK else ESP_FAIL, s6))"

subsection \<open>Save to NVS\<close>

definition save_to_nvs :: "string \<Rightarrow> buffer \<Rightarrow> state \<Rightarrow> esp_err \<times> state" where
  "save_to_nvs key val s =
     (case nvs_open NVS_READWRITE (nvs s) of (err, fl1) \<Rightarrow>
        if err \<noteq> ESP_OK then (err, s\<lparr>nvs := fl1\<rparr>)
        else
          (case nvs_set_str key (cstr val) fl1 of (err1, fl2) \<Rightarrow>
             (if err1 = ESP_OK then nvs_commit fl2 else err1,
              emit (Nvs_set_str key (cstr val)) (s\<lparr>nvs := fl2\<rparr>))))"

subsection \<open>MQTT start and the publish loop\<close>

definition snprintf :: "nat \<Rightarrow> string \<Rightarrow> string" where
  "snprintf sz str = take (sz - 1) str"

definition digit_char :: "nat \<Rightarrow> char" where
  "digit_char d = char_of (48 + d)"

fun dec_digits :: "nat \<Rightarrow> string" where
  "dec_digits n = (if n < 10 then [digit_char n] else dec_digits (n div 10) @ [digit_char (n mod 10)])"

declare dec_digits.simps [simp del]

text \<open>The \<^verbatim>\<open>%d\<close> conversion.\<close>

definition fmt_d :: "int \<Rightarrow> string" where
  "fmt_d v = (if v < 0 then CHR ''-'' # dec_digits (nat (- v)) else dec_digits (nat v))"

definition start_mqtt :: "state \<Rightarrow> state" where
  "start_mqtt s =
     (let uri = snprintf 128 (''mqtt://'' @ cstr (mqtt_broker s) @ '':1883'')
      in emit (Mqtt_client_start uri) (s\<lparr>mqtt_registered := True\<rparr>))"

definition esp_random :: "state \<Rightarrow> 32 word \<times> state" where
  "esp_random s = (rng s (rng_calls s), s\<lparr>rng_calls := rng_calls s + 1\<rparr>)"

definition esp_mqtt_client_publish ::
  "string \<Rightarrow> string \<Rightarrow> nat \<Rightarrow> nat \<Rightarrow> nat \<Rightarrow> state \<Rightarrow> int \<times> state" where
  "esp_mqtt_client_publish topic data len qos retain s =
     (publish_ret s (publish_calls s),
      emit (Mqtt_publish topic data len qos retain) (s\<lparr>publish_calls := publish_calls s + 1\<rparr>))"

definition esp_log :: "log_level \<Rightarrow> string \<Rightarrow> state \<Rightarrow> state" where
  "esp_log lvl msg s = emit (Esp_log lvl msg) s"

text \<open>The body of \<^verbatim>\<open>while (1)\<close> before its delay, and one whole iteration.\<close>

definition loop_body :: "state \<Rightarrow> state" where
  "loop_body s =
     (if wifi_connected s \<and> mqtt_connected s then
        (case esp_random s of (r, s1) \<Rightarrow>
           let val = sint (r mod 100);
               payload = snprintf 16 (fmt_d val);
               s2 = snd (esp_mqtt_client_publish (cstr (mqtt_topic s1)) payload 0 1 0 s1)
           in esp_log LOG_I (''Published: '' @ payload) s2)
      else if \<not> wifi_connected s then
        esp_wifi_connect (esp_log LOG_W ''Wi-Fi Lost. Reconnecting...'' s)
      else s)"

definition loop_iteration :: "state \<Rightarrow> state" where
  "loop_iteration s = vTaskDelay 10000 (loop_body s)"

text \<open>The first n iterations of the endless loop.\<close>

fun publish_loop :: "nat \<Rightarrow> state \<Rightarrow> state" where
  "publish_loop 0 s = s"
| "publish_loop (Suc n) s = publish_loop n (loop_iteration s)"

subsection \<open>Boot menu\<close>

definition print_menu :: "state \<Rightarrow> state" where
  "print_menu s =
     printf ''Select >> ''
       (printf ''===================================\<newline>''
         (printf ''   [N] New Setup (Manual Entry)\<newline>''
           (printf ''   [O] Auto Connect (Load NVS)\<newline>''
             (printf ''   BOOT MENU\<newline>''
               (printf ''\<newline>===================================\<newline>'' s)))))"

text \<open>
  \<^verbatim>\<open>while (uart_read_bytes(..., &choice, 1, 100 ms) <= 0) vTaskDelay(50 ms);\<close>
\<close>

function wait_choice :: "state \<Rightarrow> (char \<times> state) outcome" where
  "wait_choice s =
     (case uart_read_bytes s of
        None \<Rightarrow> Blocked s
      | Some (No_byte, s1) \<Rightarrow> wait_choice (vTaskDelay 50 s1)
      | Some (Byte ch, s1) \<Rightarrow> Ret (ch, s1))"
  by pat_completeness auto
termination
  by (relation "measure (\<lambda>s. length (uart_rx s))") (auto dest: uart_read_bytes_consumes)

declare wait_choice.simps [simp del]

text \<open>\<^verbatim>\<open>load_from_nvs(key, buf, sizeof(buf))\<close> on one of the global buffers.\<close>

definition load_cred :: "string \<Rightarrow> cred \<Rightarrow> state \<Rightarrow> esp_err \<times> state" where
  "load_cred key c s =
     (case load_from_nvs (nvs s) key (get_buf c s) (sizeof_buf c) of
        (err, b) \<Rightarrow> (err, set_buf c b s))"

definition no_saved_config :: "state \<Rightarrow> bool \<times> state" where
  "no_saved_config s =
     (False, printf ''No saved configuration found! Please use New Setup [N].\<newline>'' s)"

text \<open>The Auto Connect branch; the result is the new value of \<^verbatim>\<open>config_ready\<close>.\<close>

definition auto_connect :: "state \<Rightarrow> bool \<times> state" where
  "auto_connect s =
     (let s0 = printf ''Loading configuration from NVS...\<newline>'' s in
      case load_cred ''ssid'' Ssid s0 of (e1, s1) \<Rightarrow>
        if e1 \<noteq> ESP_OK then no_saved_config s1 else
      case load_cred ''pass'' Wifi_pass s1 of (e2, s2) \<Rightarrow>
        if e2 \<noteq> ESP_OK then no_saved_config s2 else
      case load_cred ''broker'' Mqtt_broker s2 of (e3, s3) \<Rightarrow>
        if e3 \<noteq> ESP_OK then no_saved_config s3 else
      case load_cred ''topic'' Mqtt_topic s3 of (e4, s4) \<Rightarrow>
        if e4 \<noteq> ESP_OK then no_saved_config s4 else
      let s5 = printf (''Credentials found for SSID: '' @ cstr (ssid s4) @ ''\<newline>Connecting...\<newline>'') s4
      in case attempt_wifi_connect s5 of (err, s6) \<Rightarrow>
           if err = ESP_OK then (True, s6)
           else (False, printf ''Failed to connect! Please use New Setup [N].\<newline>'' s6))"


subsection \<open>Wizard\<close>

lemma wait_connected_uart_rx [simp]: "uart_rx (snd (wait_connected n s)) = uart_rx s"
  by (induction n s rule: wait_connected.induct) (subst wait_connected.simps, simp)

lemma esp_wifi_frame [simp]:
  "uart_rx (esp_wifi_set_mode s) = uart_rx s"
  "uart_rx (esp_wifi_set_config a b s) = uart_rx s"
  "uart_rx (esp_wifi_start s) = uart_rx s"
  "uart_rx (esp_wifi_connect s) = uart_rx s"
  "uart_rx (esp_wifi_stop s) = uart_rx s"
  by (simp_all add: esp_wifi_set_mode_def esp_wifi_set_config_def esp_wifi_start_def
      esp_wifi_connect_def esp_wifi_stop_def)

lemma attempt_wifi_connect_uart_rx [simp]: "uart_rx (snd (attempt_wifi_connect s)) = uart_rx s"
  by (simp add: attempt_wifi_connect_def Let_def)

lemma attempt_wifi_connect_uart_rx_eq:
  "attempt_wifi_connect s = (err, t) \<Longrightarrow> uart_rx t = uart_rx s"
  using attempt_wifi_connect_uart_rx [of s] by simp

lemma save_to_nvs_uart_rx [simp]: "uart_rx (snd (save_to_nvs key val s)) = uart_rx s"
  by (simp add: save_to_nvs_def split: prod.splits)

text \<open>The \<^verbatim>\<open>while(1)\<close> loop of the Wi-Fi entry.\<close>

function wifi_entry :: "state \<Rightarrow> state outcome" where
  "wifi_entry s =
     (case read_input ''Enter SSID: '' Ssid 32 False s of
        Blocked t \<Rightarrow> Blocked t
      | Ret s1 \<Rightarrow>
          (case read_input ''Enter Password: '' Wifi_pass 64 True s1 of
             Blocked t \<Rightarrow> Blocked t
           | Ret s2 \<Rightarrow>
               (case attempt_wifi_connect (printf ''Attempting connection...\<newline>'' s2) of
                  (err, s3) \<Rightarrow>
                    if err = ESP_OK then
                      (let s4 = printf ''Wi-Fi Connected! Saving to NVS...\<newline>'' s3;
                           s5 = snd (save_to_nvs ''ssid'' (ssid s4) s4);
                           s6 = snd (save_to_nvs ''pass'' (wifi_pass s5) s5)
                       in Ret s6)
                    else wifi_entry (esp_wifi_stop (printf ''Connection Failed. Try again.\<newline>'' s3)))))"
  by pat_completeness auto
termination
proof (relation "measure (\<lambda>s. length (uart_rx s))", goal_cases)
  case 1
  show ?case by simp
next
  case (2 s s1 s2 e t)
  have a: "length (uart_rx s1) < length (uart_rx s)"
    using 2(1) by (rule read_input_consumes) (simp add: size_sub1_def)
  have b: "length (uart_rx s2) < length (uart_rx s1)"
    using 2(2) by (rule read_input_consumes) (simp add: size_sub1_def)
  have "uart_rx t = uart_rx (printf ''Attempting connection...\<newline>'' s2)"
    using 2(3) [symmetric] by (rule attempt_wifi_connect_uart_rx_eq)
  with a b show ?case by simp
qed

declare wifi_entry.simps [simp del]

text \<open>The MQTT entry that follows the Wi-Fi entry in the wizard branch.\<close>

definition mqtt_entry :: "state \<Rightarrow> state outcome" where
  "mqtt_entry s1 =
     (case read_input ''Enter MQTT Broker IP: '' Mqtt_broker 64 False s1 of
        Blocked t \<Rightarrow> Blocked t
      | Ret s2 \<Rightarrow>
          (case read_input ''Enter MQTT Topic: '' Mqtt_topic 64 False s2 of
             Blocked t \<Rightarrow> Blocked t
           | Ret s3 \<Rightarrow>
               (let s4 = snd (save_to_nvs ''broker'' (mqtt_broker s3) s3);
                    s5 = snd (save_to_nvs ''topic'' (mqtt_topic s4) s4)
                in Ret s5)))"

definition wizard :: "state \<Rightarrow> state outcome" where
  "wizard s =
     (case wifi_entry (printf ''\<newline>--- STARTING WIZARD ---\<newline>'' s) of
        Blocked t \<Rightarrow> Blocked t
      | Ret s1 \<Rightarrow> mqtt_entry s1)"

text \<open>
  One pass through the body of \<^verbatim>\<open>while (!config_ready)\<close>; the result carries the new
  value of \<^verbatim>\<open>config_ready\<close>.
\<close>

definition menu_iteration :: "state \<Rightarrow> (bool \<times> state) outcome" where
  "menu_iteration s =
     (case wait_choice (print_menu s) of
        Blocked t \<Rightarrow> Blocked t
      | Ret (choice, s1) \<Rightarrow>
          (let s2 = printf [choice, LF] s1 in
           if choice = CHR ''O'' \<or> choice = CHR ''o'' then Ret (auto_connect s2)
           else if choice = CHR ''N'' \<or> choice = CHR ''n'' then
             (case wizard s2 of
                Blocked t \<Rightarrow> Blocked t
              | Ret s3 \<Rightarrow> Ret (True, s3))
           else Ret (False, printf ''Invalid selection.\<newline>'' s2)))"

lemma wait_choice_consumes:
  "wait_choice s = Ret (ch, s') \<Longrightarrow> length (uart_rx s') < length (uart_rx s)"
proof (induction s rule: wait_choice.induct)
  case (1 s)
  from "1.prems" obtain r s1 where rd: "uart_read_bytes s = Some (r, s1)"
    by (subst (asm) wait_choice.simps) (auto split: option.splits)
  then have lt: "length (uart_rx s1) < length (uart_rx s)"
    by (rule uart_read_bytes_consumes)
  show ?case
  proof (cases r)
    case No_byte
    with "1.prems" rd have "wait_choice (vTaskDelay 50 s1) = Ret (ch, s')"
      by (subst (asm) wait_choice.simps) simp
    from "1.IH" [OF rd [unfolded No_byte] refl refl this] lt show ?thesis by simp
  next
    case (Byte c)
    with "1.prems" rd have "s' = s1"
      by (subst (asm) wait_choice.simps) simp
    with lt show ?thesis by simp
  qed
qed

lemma load_cred_uart_rx [simp]: "uart_rx (snd (load_cred key c s)) = uart_rx s"
  by (simp add: load_cred_def case_prod_beta)

lemma auto_connect_uart_rx [simp]: "uart_rx (snd (auto_connect s)) = uart_rx s"
  by (simp add: auto_connect_def no_saved_config_def Let_def case_prod_beta)

lemma auto_connect_uart_rx_eq:
  "auto_connect s = (r, t) \<Longrightarrow> uart_rx t = uart_rx s"
  using auto_connect_uart_rx [of s] by simp

lemma print_menu_uart_rx [simp]: "uart_rx (print_menu s) = uart_rx s"
  by (simp add: print_menu_def)

lemma menu_iteration_consumes:
  assumes "menu_iteration s = Ret (False, s')"
  shows "length (uart_rx s') < length (uart_rx s)"
proof -
  from assms obtain choice s1 where w: "wait_choice (print_menu s) = Ret (choice, s1)"
    by (auto simp: menu_iteration_def split: outcome.splits)
  from wait_choice_consumes [OF w] have lt: "length (uart_rx s1) < length (uart_rx s)" by simp
  have "uart_rx s' = uart_rx s1"
  proof (cases "choice = CHR ''O'' \<or> choice = CHR ''o''")
    case True
    with assms w have "auto_connect (printf [choice, LF] s1) = (False, s')"
      by (simp add: menu_iteration_def)
    from auto_connect_uart_rx_eq [OF this] show ?thesis by simp
  next
    case False
    with assms w show ?thesis
      by (cases "choice = CHR ''N'' \<or> choice = CHR ''n''")
         (auto simp: menu_iteration_def split: outcome.splits)
  qed
  with lt show ?thesis by simp
qed

function boot_menu :: "state \<Rightarrow> state outcome" where
  "boot_menu s =
     (case menu_iteration s of
        Blocked t \<Rightarrow> Blocked t
      | Ret (config_ready, s1) \<Rightarrow> if config_ready then Ret s1 else boot_menu s1)"
  by pat_completeness auto
termination
  by (relation "measure (\<lambda>s. length (uart_rx s))") (auto dest: menu_iteration_consumes)

declare boot_menu.simps [simp del]

subsection \<open>The main task\<close>

text \<open>
  \<^verbatim>\<open>app_main\<close> from the boot menu on, with the first n iterations of its endless loop. The
  initialisation before the menu (flash, network interface, UART, \<^verbatim>\<open>wifi_stack_init\<close>) only
  sets up the drivers and registers \<open>wifi_event_handler\<close>; it is taken as done.
\<close>

definition app_main :: "nat \<Rightarrow> state \<Rightarrow> state outcome" where
  "app_main n s =
     (case boot_menu s of
        Blocked t \<Rightarrow> Blocked t
      | Ret s1 \<Rightarrow>
          (let s2 = start_mqtt s1;
               s3 = printf ''\<newline>--- SYSTEM RUNNING ---\<newline>'' s2;
               s4 = esp_log LOG_I (''Starting loop. Sending data to topic: '' @ cstr (mqtt_topic s3)) s3
           in Ret (publish_loop n s4)))"

text \<open>The state at the start of \<^verbatim>\<open>app_main\<close>: zeroed globals, nothing logged.\<close>

definition boot_state :: "nvs_flash \<Rightarrow> rx list \<Rightarrow> event list list \<Rightarrow> state" where
  "boot_state fl rxs evs =
     \<lparr>wifi_connected = False, mqtt_connected = False, mqtt_registered = False,
      ssid = replicate 32 NUL, wifi_pass = replicate 64 NUL,
      mqtt_broker = replicate 64 NUL, mqtt_topic = replicate 64 NUL,
      nvs = fl, uart_rx = rxs, events = evs,
      rng = (\<lambda>n. 0), rng_calls = 0, publish_ret = (\<lambda>n. 0), publish_calls = 0,
      trace = [], handler_trace = []\<rparr>"

section \<open>Credential store: what \<open>load_from_nvs\<close> answers\<close>

definition flash_with :: "(string \<rightharpoonup> string) \<Rightarrow> nvs_flash" where
  "flash_with m = \<lparr>open_fault = ESP_OK, set_fault = ESP_OK, commit_fault = ESP_OK, storage = Some m\<rparr>"

lemma load_from_nvs_absent:
  "open_fault fl = ESP_OK \<Longrightarrow> storage fl = Some m \<Longrightarrow> m key = None \<Longrightarrow>
   load_from_nvs fl key buf max_len = (ESP_ERR_NVS_NOT_FOUND, buf)"
  by (simp add: load_from_nvs_def nvs_open_def nvs_get_str_def)

lemma load_from_nvs_fits:
  "open_fault fl = ESP_OK \<Longrightarrow> storage fl = Some m \<Longrightarrow> m key = Some v \<Longrightarrow>
   length v + 1 \<le> max_len \<Longrightarrow>
   load_from_nvs fl key buf max_len = (ESP_OK, v @ [NUL] @ drop (length v + 1) buf)"
  by (simp add: load_from_nvs_def nvs_open_def nvs_get_str_def)

lemma load_from_nvs_oversized:
  "open_fault fl = ESP_OK \<Longrightarrow> storage fl = Some m \<Longrightarrow> m key = Some v \<Longrightarrow>
   max_len < length v + 1 \<Longrightarrow>
   load_from_nvs fl key buf max_len = (ESP_OK, buf)"
  by (simp add: load_from_nvs_def nvs_open_def nvs_get_str_def)

text \<open>
  C2. The claim: a stored value longer than the caller's capacity makes the load fail.
  In the code the size check only skips the copy: with a 40-character value under
  \<^verbatim>\<open>"ssid"\<close> and the 32-byte buffer, \<open>load_from_nvs\<close> answers \<^const>\<open>ESP_OK\<close> and leaves the
  buffer as it was.
\<close>

theorem load_from_nvs_oversized_reports_ok:
  "load_from_nvs (flash_with [''ssid'' \<mapsto> replicate 40 CHR ''A'']) ''ssid'' (replicate 32 NUL) 32
     = (ESP_OK, replicate 32 NUL)"
  by (rule load_from_nvs_oversized [where m = "[''ssid'' \<mapsto> replicate 40 CHR ''A'']"
        and v = "replicate 40 CHR ''A''"]) (simp_all add: flash_with_def)

section \<open>Line input reader\<close>

text \<open>
  The line editor in the words of the specification. It holds at most \<open>cap\<close> characters and
  stops as soon as it holds that many; otherwise it takes the next byte: a terminator (CR or
  LF) ends the line, a backspace or delete removes the last character held and erases it on
  the console, with no effect on an empty line, a printable byte is appended and echoed, as a
  star when masked, and any other byte is dropped. The result is the line, the echo and the
  unread input; \<^const>\<open>None\<close> when the input ends before the line does.
\<close>

fun spec_read_line ::
  "nat \<Rightarrow> bool \<Rightarrow> rx list \<Rightarrow> string \<Rightarrow> string list \<Rightarrow> (string \<times> string list \<times> rx list) option" where
  "spec_read_line cap masked rxs acc echo =
     (if cap \<le> length acc then Some (acc, echo, rxs)
      else
        (case rxs of
           [] \<Rightarrow> None
         | No_byte # rest \<Rightarrow> spec_read_line cap masked rest acc echo
         | Byte ch # rest \<Rightarrow>
             if ch = CR \<or> ch = LF then Some (acc, echo @ [nl], rest)
             else if ch = BS \<or> ch = DEL then
               (if acc = [] then spec_read_line cap masked rest acc echo
                else spec_read_line cap masked rest (butlast acc) (echo @ [[BS, CHR '' '', BS]]))
             else if printable ch then
               spec_read_line cap masked rest (acc @ [ch]) (echo @ [if masked then ''*'' else [ch]])
             else spec_read_line cap masked rest acc echo))"

declare spec_read_line.simps [simp del]

lemma spec_read_line_done:
  "cap \<le> length acc \<Longrightarrow> spec_read_line cap masked rxs acc echo = Some (acc, echo, rxs)"
  by (simp add: spec_read_line.simps)

lemma spec_read_line_empty:
  "length acc < cap \<Longrightarrow> spec_read_line cap masked [] acc echo = None"
  by (simp add: spec_read_line.simps)

lemma spec_read_line_No_byte:
  "length acc < cap \<Longrightarrow>
   spec_read_line cap masked (No_byte # rest) acc echo = spec_read_line cap masked rest acc echo"
  by (subst spec_read_line.simps) simp

lemma spec_read_line_terminator:
  "length acc < cap \<Longrightarrow> ch = CR \<or> ch = LF \<Longrightarrow>
   spec_read_line cap masked (Byte ch # rest) acc echo = Some (acc, echo @ [nl], rest)"
  by (subst spec_read_line.simps) auto

lemma spec_read_line_erase:
  "length acc < cap \<Longrightarrow> ch = BS \<or> ch = DEL \<Longrightarrow> acc \<noteq> [] \<Longrightarrow>
   spec_read_line cap masked (Byte ch # rest) acc echo
     = spec_read_line cap masked rest (butlast acc) (echo @ [[BS, CHR '' '', BS]])"
  by (subst spec_read_line.simps) auto

lemma spec_read_line_erase_empty:
  "0 < cap \<Longrightarrow> ch = BS \<or> ch = DEL \<Longrightarrow>
   spec_read_line cap masked (Byte ch # rest) [] echo = spec_read_line cap masked rest [] echo"
  by (subst spec_read_line.simps) auto

lemma spec_read_line_printable:
  "length acc < cap \<Longrightarrow> printable ch \<Longrightarrow>
   spec_read_line cap masked (Byte ch # rest) acc echo
     = spec_read_line cap masked rest (acc @ [ch]) (echo @ [if masked then ''*'' else [ch]])"
  by (subst spec_read_line.simps) (auto simp: printable_def)

lemma spec_read_line_discard:
  "length acc < cap \<Longrightarrow> \<not> printable ch \<Longrightarrow> ch \<noteq> CR \<Longrightarrow> ch \<noteq> LF \<Longrightarrow> ch \<noteq> BS \<Longrightarrow> ch \<noteq> DEL \<Longrightarrow>
   spec_read_line cap masked (Byte ch # rest) acc echo = spec_read_line cap masked rest acc echo"
  by (subst spec_read_line.simps) auto

definition read_loop_post ::
  "cred \<Rightarrow> nat \<Rightarrow> bool \<Rightarrow> rx list \<Rightarrow> string \<Rightarrow> string list \<Rightarrow> action list \<Rightarrow> nat \<Rightarrow>
   (nat \<times> state) outcome \<Rightarrow> bool" where
  "read_loop_post b cap masked rxs acc echo tr n res =
     (case res of
        Ret (j, s') \<Rightarrow>
          (\<exists>new. spec_read_line cap masked rxs acc echo
                   = Some (take j (get_buf b s'), echo @ new, uart_rx s') \<and>
                 trace s' = tr @ map Uart_write new) \<and>
          j \<le> cap \<and> NUL \<notin> set (take j (get_buf b s')) \<and> length (get_buf b s') = n
      | Blocked s' \<Rightarrow> spec_read_line cap masked rxs acc echo = None)"

lemma read_loop_post_same:
  "read_loop_post b cap masked rest acc' echo tr n res \<Longrightarrow>
   spec_read_line cap masked rxs acc echo = spec_read_line cap masked rest acc' echo \<Longrightarrow>
   read_loop_post b cap masked rxs acc echo tr n res"
  by (auto simp: read_loop_post_def split: outcome.splits)

lemma read_loop_post_shift:
  assumes "read_loop_post b cap masked rest acc' (echo @ [e]) (tr @ [Uart_write e]) n res"
    and "spec_read_line cap masked rxs acc echo
           = spec_read_line cap masked rest acc' (echo @ [e])"
  shows "read_loop_post b cap masked rxs acc echo tr n res"
proof (cases res)
  case (Blocked s')
  with assms show ?thesis by (simp add: read_loop_post_def)
next
  case (Ret p)
  obtain j s' where p: "p = (j, s')" by (cases p)
  from assms(1) Ret p obtain new where
    new: "spec_read_line cap masked rest acc' (echo @ [e])
            = Some (take j (get_buf b s'), (echo @ [e]) @ new, uart_rx s')"
         "trace s' = (tr @ [Uart_write e]) @ map Uart_write new"
    and rest: "j \<le> cap" "NUL \<notin> set (take j (get_buf b s'))" "length (get_buf b s') = n"
    by (auto simp: read_loop_post_def)
  have "spec_read_line cap masked rxs acc echo
          = Some (take j (get_buf b s'), echo @ (e # new), uart_rx s') \<and>
        trace s' = tr @ map Uart_write (e # new)"
    using new assms(2) by simp
  then have "\<exists>new. spec_read_line cap masked rxs acc echo
                   = Some (take j (get_buf b s'), echo @ new, uart_rx s') \<and>
                 trace s' = tr @ map Uart_write new"
    by (rule exI)
  with rest Ret p show ?thesis by (simp add: read_loop_post_def)
qed

lemma read_loop_refines:
  "uart_rx s = rxs \<Longrightarrow> 0 < len \<Longrightarrow> len < 2 ^ 32 \<Longrightarrow> len \<le> length (get_buf b s) \<Longrightarrow>
   i \<le> len - 1 \<Longrightarrow> NUL \<notin> set (take i (get_buf b s)) \<Longrightarrow>
   read_loop_post b (len - 1) masked rxs (take i (get_buf b s)) echo (trace s) (length (get_buf b s))
     (read_loop b len masked i s)"
proof (induction rxs arbitrary: s i echo)
  case Nil
  let ?acc = "take i (get_buf b s)"
  have len_acc: "length ?acc = i" using Nil.prems by simp
  show ?case
  proof (cases "i < size_sub1 len")
    case True
    then have "length ?acc < len - 1" using Nil.prems len_acc by simp
    then have "spec_read_line (len - 1) masked [] ?acc echo = None"
      by (rule spec_read_line_empty)
    with True Nil.prems show ?thesis
      by (simp add: read_loop_empty read_loop_post_def)
  next
    case False
    then have "len - 1 \<le> length ?acc" using Nil.prems len_acc by simp
    then have "spec_read_line (len - 1) masked [] ?acc echo = Some (?acc, echo, [])"
      by (rule spec_read_line_done)
    with False Nil.prems show ?thesis
      by (simp add: read_loop_done read_loop_post_def)
  qed
next
  case (Cons r rest)
  let ?buf = "get_buf b s"
  let ?acc = "take i ?buf"
  let ?s1 = "deliver (s\<lparr>uart_rx := rest\<rparr>)"
  have len_acc: "length ?acc = i" using Cons.prems by simp
  have nonul: "NUL \<notin> set ?acc" using Cons.prems by simp
  have rx: "uart_rx s = r # rest" using Cons.prems by simp
  show ?case
  proof (cases "i < size_sub1 len")
    case False
    then have "len - 1 \<le> length ?acc" using Cons.prems len_acc by simp
    then have "spec_read_line (len - 1) masked (r # rest) ?acc echo = Some (?acc, echo, r # rest)"
      by (rule spec_read_line_done)
    with False Cons.prems show ?thesis
      by (simp add: read_loop_done read_loop_post_def)
  next
    case True
    then have ilt: "i < len - 1" using Cons.prems by simp
    have cap: "length ?acc < len - 1" using ilt len_acc by simp
    have IH1: "read_loop_post b (len - 1) masked rest ?acc echo (trace s) (length ?buf)
                 (read_loop b len masked i ?s1)"
      using Cons.IH [of ?s1 i echo] Cons.prems by simp
    show ?thesis
    proof (cases r)
      case No_byte
      have run: "read_loop b len masked i s = read_loop b len masked i ?s1"
        using True rx No_byte by (simp add: read_loop_No_byte)
      have spec: "spec_read_line (len - 1) masked (r # rest) ?acc echo
                  = spec_read_line (len - 1) masked rest ?acc echo"
        unfolding No_byte using cap by (rule spec_read_line_No_byte)
      show ?thesis unfolding run using IH1 spec by (rule read_loop_post_same)
    next
      case (Byte ch)
      consider (eol) "ch = CR \<or> ch = LF"
        | (erase) "ch = BS \<or> ch = DEL" "0 < i"
        | (erase0) "ch = BS \<or> ch = DEL" "i = 0"
        | (print) "printable ch"
        | (other) "\<not> printable ch" "ch \<noteq> CR" "ch \<noteq> LF" "ch \<noteq> BS" "ch \<noteq> DEL"
        by auto
      then show ?thesis
      proof cases
        case eol
        have run: "read_loop b len masked i s = Ret (i, uart_write_bytes nl ?s1)"
          using True rx Byte eol by (simp add: read_loop_terminator)
        have spec: "spec_read_line (len - 1) masked (r # rest) ?acc echo = Some (?acc, echo @ [nl], rest)"
          unfolding Byte using cap eol by (rule spec_read_line_terminator)
        show ?thesis unfolding run
          using Cons.prems spec by (simp add: read_loop_post_def)
      next
        case erase
        let ?e = "[BS, CHR '' '', BS]"
        let ?s2 = "uart_write_bytes ?e ?s1"
        have run: "read_loop b len masked i s = read_loop b len masked (i - 1) ?s2"
          using True rx Byte erase by (simp add: read_loop_erase)
        have ne: "?acc \<noteq> []" using len_acc erase by auto
        have bl: "butlast ?acc = take (i - 1) ?buf"
          using Cons.prems by (simp add: butlast_take)
        have spec: "spec_read_line (len - 1) masked (r # rest) ?acc echo
                  = spec_read_line (len - 1) masked rest (take (i - 1) ?buf) (echo @ [?e])"
          unfolding Byte bl [symmetric] using cap erase(1) ne by (rule spec_read_line_erase)
        have nn: "NUL \<notin> set (take (i - 1) ?buf)"
          using nonul bl by (metis in_set_butlastD)
        have IH2: "read_loop_post b (len - 1) masked rest (take (i - 1) ?buf) (echo @ [?e])
                     (trace s @ [Uart_write ?e]) (length ?buf) (read_loop b len masked (i - 1) ?s2)"
          using Cons.IH [of ?s2 "i - 1" "echo @ [?e]"] Cons.prems nn by simp
        show ?thesis unfolding run using IH2 spec by (rule read_loop_post_shift)
      next
        case erase0
        have run: "read_loop b len masked i s = read_loop b len masked i ?s1"
          using True rx Byte erase0 by (simp add: read_loop_erase_empty)
        have spec: "spec_read_line (len - 1) masked (r # rest) ?acc echo
                  = spec_read_line (len - 1) masked rest ?acc echo"
          using ilt Byte erase0 by (simp add: spec_read_line_erase_empty)
        show ?thesis unfolding run using IH1 spec by (rule read_loop_post_same)
      next
        case print
        let ?e = "if masked then ''*'' else [ch]"
        let ?s2 = "uart_write_bytes ?e (set_buf b (?buf[i := ch]) ?s1)"
        have run: "read_loop b len masked i s = read_loop b len masked (i + 1) ?s2"
          using True rx Byte print by (simp add: read_loop_printable)
        have ib: "i < length ?buf" using ilt Cons.prems by simp
        have tk: "take (i + 1) (?buf[i := ch]) = ?acc @ [ch]"
          using ib by (simp add: take_Suc_conv_app_nth)
        have spec: "spec_read_line (len - 1) masked (r # rest) ?acc echo
                  = spec_read_line (len - 1) masked rest (take (i + 1) (?buf[i := ch])) (echo @ [?e])"
          unfolding Byte tk using cap print by (rule spec_read_line_printable)
        have nn: "NUL \<notin> set (take (i + 1) (?buf[i := ch]))"
          unfolding tk using nonul printable_not_control [OF print] by auto
        have IH2: "read_loop_post b (len - 1) masked rest (take (i + 1) (?buf[i := ch])) (echo @ [?e])
                     (trace s @ [Uart_write ?e]) (length ?buf) (read_loop b len masked (i + 1) ?s2)"
          using Cons.IH [of ?s2 "i + 1" "echo @ [?e]"] Cons.prems ilt nn by simp
        show ?thesis unfolding run using IH2 spec by (rule read_loop_post_shift)
      next
        case other
        have run: "read_loop b len masked i s = read_loop b len masked i ?s1"
          using True rx Byte other by (simp add: read_loop_discard)
        have spec: "spec_read_line (len - 1) masked (r # rest) ?acc echo
                  = spec_read_line (len - 1) masked rest ?acc echo"
          unfolding Byte using cap other by (rule spec_read_line_discard)
        show ?thesis unfolding run using IH1 spec by (rule read_loop_post_same)
      qed
    qed
  qed
qed

lemma read_input_refines:
  assumes len: "0 < len" "len < 2 ^ 32" "len \<le> length (get_buf b s)"
  shows "(read_input prompt b len masked s = Ret s' \<longrightarrow>
            (\<exists>echo. spec_read_line (len - 1) masked (uart_rx s) [] []
                      = Some (cstr (get_buf b s'), echo, uart_rx s') \<and>
                    trace s' = trace s @ Printf prompt # map Uart_write echo) \<and>
            length (get_buf b s') = length (get_buf b s)) \<and>
         (read_input prompt b len masked s = Blocked s' \<longrightarrow>
            spec_read_line (len - 1) masked (uart_rx s) [] [] = None)"
proof -
  let ?s1 = "printf prompt s"
  let ?s2 = "set_buf b (memset0 (get_buf b ?s1) len) ?s1"
  have post: "read_loop_post b (len - 1) masked (uart_rx ?s2) (take 0 (get_buf b ?s2)) []
                (trace ?s2) (length (get_buf b ?s2)) (read_loop b len masked 0 ?s2)"
    by (rule read_loop_refines) (use len in simp_all)
  show ?thesis
  proof (cases "read_loop b len masked 0 ?s2")
    case (Blocked t)
    with post show ?thesis
      by (simp add: read_input_def Let_def read_loop_post_def)
  next
    case (Ret p)
    obtain j t where p: "p = (j, t)" by (cases p)
    from post Ret p obtain new where
      spec: "spec_read_line (len - 1) masked (uart_rx s) [] [] = Some (take j (get_buf b t), new, uart_rx t)"
      and tr: "trace t = trace s @ Printf prompt # map Uart_write new"
      and j: "j \<le> len - 1" and nn: "NUL \<notin> set (take j (get_buf b t))"
      and lb: "length (get_buf b t) = length (get_buf b s)"
      by (auto simp: read_loop_post_def)
    have jl: "j < length (get_buf b t)" using j len lb by simp
    have res: "read_input prompt b len masked s = Ret (set_buf b ((get_buf b t)[j := NUL]) t)"
      using Ret p by (simp add: read_input_def Let_def)
    have "cstr ((get_buf b t)[j := NUL]) = take j (get_buf b t)"
      using jl nn by (rule cstr_terminated)
    with spec tr lb show ?thesis unfolding res by auto
  qed
qed

lemma spec_read_line_returns:
  "Byte ch \<in> set rxs \<Longrightarrow> ch = CR \<or> ch = LF \<Longrightarrow> spec_read_line cap masked rxs acc echo \<noteq> None"
proof (induction rxs arbitrary: acc echo)
  case Nil
  then show ?case by simp
next
  case (Cons r rest)
  show ?case
  proof (cases "cap \<le> length acc")
    case True
    then show ?thesis by (simp add: spec_read_line_done)
  next
    case False
    then have cap: "length acc < cap" by simp
    show ?thesis
    proof (cases r)
      case No_byte
      with Cons cap show ?thesis by (simp add: spec_read_line_No_byte)
    next
      case (Byte c)
      consider (eol) "c = CR \<or> c = LF"
        | (erase) "c = BS \<or> c = DEL" "acc \<noteq> []"
        | (erase0) "c = BS \<or> c = DEL" "acc = []"
        | (print) "printable c"
        | (other) "\<not> printable c" "c \<noteq> CR" "c \<noteq> LF" "c \<noteq> BS" "c \<noteq> DEL"
        by auto
      then show ?thesis
      proof cases
        case eol
        with cap Byte show ?thesis by (simp add: spec_read_line_terminator)
      next
        case erase
        then have "Byte ch \<in> set rest" using Cons.prems Byte by auto
        from Cons.IH [OF this Cons.prems(2)] erase cap Byte show ?thesis
          by (simp add: spec_read_line_erase)
      next
        case erase0
        then have "Byte ch \<in> set rest" using Cons.prems Byte by auto
        from Cons.IH [OF this Cons.prems(2)] erase0 cap Byte show ?thesis
          by (simp add: spec_read_line_erase_empty)
      next
        case print
        then have "Byte ch \<in> set rest" using Cons.prems Byte printable_not_control [of c] by auto
        from Cons.IH [OF this Cons.prems(2)] print cap Byte show ?thesis
          by (simp add: spec_read_line_printable)
      next
        case other
        then have "Byte ch \<in> set rest" using Cons.prems Byte by auto
        from Cons.IH [OF this Cons.prems(2)] other cap Byte show ?thesis
          by (simp add: spec_read_line_discard)
      qed
    qed
  qed
qed

text \<open>
  C8. \<open>read_input\<close> is the line editor of the specification: on every finite input it
  returns exactly when \<open>spec_read_line\<close> does (a terminator byte was received, or
  \<open>len - 1\<close> characters are held), the C string left in the buffer is the edited line,
  the UART echo is the editor's echo, and the unread input is what the editor left. A
  terminator anywhere in the input makes it return.
\<close>

theorem read_input_line_editor:
  assumes "0 < len" and "len < 2 ^ 32" and "len \<le> length (get_buf b s)"
  shows "(\<forall>s'. read_input prompt b len masked s = Ret s' \<longrightarrow>
            (\<exists>echo. spec_read_line (len - 1) masked (uart_rx s) [] []
                      = Some (cstr (get_buf b s'), echo, uart_rx s') \<and>
                    trace s' = trace s @ Printf prompt # map Uart_write echo)) \<and>
         (\<forall>s'. read_input prompt b len masked s = Blocked s' \<longrightarrow>
            spec_read_line (len - 1) masked (uart_rx s) [] [] = None) \<and>
         ((\<exists>ch. Byte ch \<in> set (uart_rx s) \<and> (ch = CR \<or> ch = LF)) \<longrightarrow>
            (\<exists>s'. read_input prompt b len masked s = Ret s'))"
proof (intro conjI allI impI)
  fix s'
  assume "read_input prompt b len masked s = Ret s'"
  with read_input_refines [OF assms, of prompt masked s']
  show "\<exists>echo. spec_read_line (len - 1) masked (uart_rx s) [] []
                      = Some (cstr (get_buf b s'), echo, uart_rx s') \<and>
                    trace s' = trace s @ Printf prompt # map Uart_write echo"
    by simp
next
  fix s'
  assume "read_input prompt b len masked s = Blocked s'"
  with read_input_refines [OF assms, of prompt masked s']
  show "spec_read_line (len - 1) masked (uart_rx s) [] [] = None" by simp
next
  assume "\<exists>ch. Byte ch \<in> set (uart_rx s) \<and> (ch = CR \<or> ch = LF)"
  then obtain ch where "Byte ch \<in> set (uart_rx s)" and "ch = CR \<or> ch = LF" by blast
  then have some: "spec_read_line (len - 1) masked (uart_rx s) [] [] \<noteq> None"
    by (rule spec_read_line_returns)
  show "\<exists>s'. read_input prompt b len masked s = Ret s'"
  proof (cases "read_input prompt b len masked s")
    case (Ret t)
    then show ?thesis by blast
  next
    case (Blocked t)
    with read_input_refines [OF assms, of prompt masked t] some show ?thesis by simp
  qed
qed

definition typed_ab :: "rx list" where
  "typed_ab = [Byte CHR ''a'', No_byte, Byte CHR ''x'', Byte DEL, Byte CHR ''b'', Byte CR]"

lemma spec_typed_ab:
  "spec_read_line 31 True typed_ab [] []
     = Some (''ab'', [''*'', ''*'', [BS, CHR '' '', BS], ''*'', nl], [])"
  by (simp add: typed_ab_def spec_read_line.simps printable_def)

theorem read_input_line_editor_witness:
  "\<exists>s'. read_input ''Enter SSID: '' Ssid 32 True (boot_state (flash_with Map.empty) typed_ab []) = Ret s' \<and>
         cstr (ssid s') = ''ab'' \<and> uart_rx s' = [] \<and>
         trace s' = [Printf ''Enter SSID: '', Uart_write ''*'', Uart_write ''*'',
                     Uart_write [BS, CHR '' '', BS], Uart_write ''*'', Uart_write nl]"
proof -
  let ?s = "boot_state (flash_with Map.empty) typed_ab []"
  have h: "0 < (32 :: nat)" "(32 :: nat) < 2 ^ 32" "32 \<le> length (get_buf Ssid ?s)"
    by (simp_all add: boot_state_def)
  note T = read_input_line_editor [OF h, of "''Enter SSID: ''" True]
  have rx: "uart_rx ?s = typed_ab" and tr: "trace ?s = []" by (simp_all add: boot_state_def)
  have "Byte CR \<in> set (uart_rx ?s)" unfolding rx by (simp add: typed_ab_def)
  with T obtain s' where r: "read_input ''Enter SSID: '' Ssid 32 True ?s = Ret s'" by blast
  with T obtain echo where
    "spec_read_line (32 - 1) True (uart_rx ?s) [] [] = Some (cstr (get_buf Ssid s'), echo, uart_rx s')"
    "trace s' = trace ?s @ Printf ''Enter SSID: '' # map Uart_write echo"
    by blast
  with r show ?thesis by (auto simp add: rx tr spec_typed_ab)
qed

section \<open>Link attempt: the bounded wait\<close>

text \<open>The state in which \<open>attempt_wifi_connect\<close> enters its wait loop.\<close>

definition link_requested :: "state \<Rightarrow> state" where
  "link_requested s =
     esp_wifi_connect (esp_wifi_start
       (esp_wifi_set_config (strncpy (ssid s) 32) (strncpy (wifi_pass s) 64)
          (esp_wifi_set_mode (s\<lparr>wifi_connected := False\<rparr>))))"

text \<open>k polls of 100 ms each.\<close>

definition polls :: "nat \<Rightarrow> state \<Rightarrow> state" where
  "polls k s = (vTaskDelay 100 ^^ k) s"

lemma polls_0 [simp]: "polls 0 s = s"
  by (simp add: polls_def)

lemma polls_Suc: "polls (Suc k) s = polls k (vTaskDelay 100 s)"
  by (simp add: polls_def funpow_swap1)

lemma trace_polls: "trace (polls k s) = trace s @ replicate k (Task_delay 100)"
proof (induction k arbitrary: s)
  case 0
  show ?case by simp
next
  case (Suc k)
  show ?case by (simp add: polls_Suc Suc.IH replicate_app_Cons_same)
qed

lemma polls_no_events:
  "events s = [] \<Longrightarrow> polls k s = s\<lparr>trace := trace s @ replicate k (Task_delay 100)\<rparr>"
proof (induction k arbitrary: s)
  case 0
  show ?case by simp
next
  case (Suc k)
  have d: "vTaskDelay 100 s = s\<lparr>trace := trace s @ [Task_delay 100]\<rparr>"
    using Suc.prems by (simp add: vTaskDelay_def deliver_def emit_def)
  have "events (vTaskDelay 100 s) = []" using Suc.prems by (simp add: d)
  from Suc.IH [OF this] show ?case
    by (simp add: polls_Suc d replicate_app_Cons_same)
qed

lemma attempt_wifi_connect_eq:
  "attempt_wifi_connect s =
     (if wifi_connected (snd (wait_connected 0 (link_requested s))) then ESP_OK else ESP_FAIL,
      snd (wait_connected 0 (link_requested s)))"
  by (simp add: attempt_wifi_connect_def link_requested_def Let_def esp_wifi_set_mode_def
      esp_wifi_set_config_def esp_wifi_start_def esp_wifi_connect_def)

lemma wait_connected_polls:
  "a \<le> 80 \<Longrightarrow>
   \<exists>k. a + k \<le> 80 \<and> wait_connected a s = (a + k, polls k s) \<and>
       (\<forall>j<k. \<not> wifi_connected (polls j s)) \<and>
       (wifi_connected (polls k s) \<or> a + k = 80)"
proof (induction a s rule: wait_connected.induct)
  case (1 attempts s)
  show ?case
  proof (cases "\<not> wifi_connected s \<and> attempts < 80")
    case False
    then have "wait_connected attempts s = (attempts, s)"
      by (subst wait_connected.simps) auto
    with False "1.prems" show ?thesis
      by (intro exI [of _ 0]) auto
  next
    case True
    then have step: "wait_connected attempts s = wait_connected (attempts + 1) (vTaskDelay 100 s)"
      by (subst wait_connected.simps) auto
    from "1.IH" [OF True] True obtain k where
      k: "attempts + 1 + k \<le> 80"
         "wait_connected (attempts + 1) (vTaskDelay 100 s) = (attempts + 1 + k, polls k (vTaskDelay 100 s))"
         "\<forall>j<k. \<not> wifi_connected (polls j (vTaskDelay 100 s))"
         "wifi_connected (polls k (vTaskDelay 100 s)) \<or> attempts + 1 + k = 80"
      by auto
    have "\<forall>j<Suc k. \<not> wifi_connected (polls j s)"
    proof (intro allI impI)
      fix j assume "j < Suc k"
      show "\<not> wifi_connected (polls j s)"
      proof (cases j)
        case 0
        with True show ?thesis by simp
      next
        case (Suc j')
        with \<open>j < Suc k\<close> k(3) show ?thesis by (simp add: polls_Suc)
      qed
    qed
    with k step show ?thesis
      by (intro exI [of _ "Suc k"]) (simp add: polls_Suc)
  qed
qed


lemma attempt_ok_iff:
  "fst (attempt_wifi_connect s) = ESP_OK \<longleftrightarrow> (\<exists>k\<le>80. wifi_connected (polls k (link_requested s)))"
proof -
  from wait_connected_polls [of 0 "link_requested s"] obtain k where
    k: "k \<le> 80" "wait_connected 0 (link_requested s) = (k, polls k (link_requested s))"
       "\<forall>j<k. \<not> wifi_connected (polls j (link_requested s))"
       "wifi_connected (polls k (link_requested s)) \<or> k = 80"
    by auto
  have "(\<exists>j\<le>80. wifi_connected (polls j (link_requested s))) \<longleftrightarrow>
        wifi_connected (polls k (link_requested s))"
  proof
    assume "\<exists>j\<le>80. wifi_connected (polls j (link_requested s))"
    then obtain j where j: "j \<le> 80" "wifi_connected (polls j (link_requested s))" by blast
    show "wifi_connected (polls k (link_requested s))"
    proof (rule ccontr)
      assume n: "\<not> wifi_connected (polls k (link_requested s))"
      with k(4) have "k = 80" by simp
      with j(1) have "j < k \<or> j = k" by auto
      with k(3) n j(2) show False by auto
    qed
  next
    assume "wifi_connected (polls k (link_requested s))"
    with k(1) show "\<exists>j\<le>80. wifi_connected (polls j (link_requested s))" by blast
  qed
  then show ?thesis by (simp add: attempt_wifi_connect_eq k(2))
qed

text \<open>Two states that differ only in the event batches after the first n.\<close>

definition agree_upto :: "nat \<Rightarrow> state \<Rightarrow> state \<Rightarrow> bool" where
  "agree_upto n s t \<longleftrightarrow> t = s\<lparr>events := events t\<rparr> \<and> take n (events s) = take n (events t)"

lemma dispatch_events_update:
  "dispatch ev (s\<lparr>events := e\<rparr>) = (dispatch ev s)\<lparr>events := e\<rparr>"
  by (simp add: dispatch_def wifi_event_handler_def mqtt_event_handler_def handler_emit_def
      split: event.splits)

lemma run_handlers_events_update:
  "run_handlers evs (s\<lparr>events := e\<rparr>) = (run_handlers evs s)\<lparr>events := e\<rparr>"
  unfolding run_handlers_def
  by (induction evs arbitrary: s) (simp_all add: dispatch_events_update)

lemma agree_upto_vTaskDelay:
  assumes "agree_upto (Suc n) s t"
  shows "agree_upto n (vTaskDelay ms s) (vTaskDelay ms t)"
proof -
  from assms have t: "t = s\<lparr>events := events t\<rparr>"
    and tk: "take (Suc n) (events s) = take (Suc n) (events t)"
    by (simp_all add: agree_upto_def)
  show ?thesis
  proof (cases "events s")
    case Nil
    with tk have "events t = []" by (cases "events t") simp_all
    with Nil t have "t = s" by (metis state.surjective state.update_convs(10))
    then show ?thesis by (simp add: agree_upto_def)
  next
    case (Cons e es)
    with tk obtain et where et: "events t = e # et" "take n es = take n et"
      by (cases "events t") simp_all
    have ds: "vTaskDelay ms s = run_handlers e ((emit (Task_delay ms) s)\<lparr>events := es\<rparr>)"
      using Cons by (simp add: vTaskDelay_def deliver_def)
    have "vTaskDelay ms t = run_handlers e ((emit (Task_delay ms) t)\<lparr>events := et\<rparr>)"
      using et by (simp add: vTaskDelay_def deliver_def)
    also have "(emit (Task_delay ms) t)\<lparr>events := et\<rparr> = (emit (Task_delay ms) s)\<lparr>events := et\<rparr>"
      by (subst t) (simp add: emit_def)
    finally have dt: "vTaskDelay ms t = (vTaskDelay ms s)\<lparr>events := et\<rparr>"
      by (simp add: ds run_handlers_events_update)
    show ?thesis
      unfolding agree_upto_def
      by (simp add: dt) (simp add: ds et)
  qed
qed

lemma agree_upto_polls:
  "agree_upto (n + k) s t \<Longrightarrow> agree_upto n (polls k s) (polls k t)"
proof (induction k arbitrary: s t)
  case 0
  then show ?case by simp
next
  case (Suc k)
  then have "agree_upto (Suc (n + k)) s t" by simp
  then have "agree_upto (n + k) (vTaskDelay 100 s) (vTaskDelay 100 t)"
    by (rule agree_upto_vTaskDelay)
  then show ?case by (simp add: polls_Suc Suc.IH)
qed

lemma agree_upto_wifi_connected: "agree_upto n s t \<Longrightarrow> wifi_connected t = wifi_connected s"
  by (metis agree_upto_def state.select_convs(1) state.surjective state.update_convs(10))

lemma link_requested_events_update:
  "link_requested (s\<lparr>events := e\<rparr>) = (link_requested s)\<lparr>events := e\<rparr>"
  by (simp add: link_requested_def esp_wifi_set_mode_def esp_wifi_set_config_def
      esp_wifi_start_def esp_wifi_connect_def emit_def)

lemma attempt_ignores_later_events:
  assumes "length first = 80"
  shows "fst (attempt_wifi_connect (s\<lparr>events := first @ later\<rparr>))
           = fst (attempt_wifi_connect (s\<lparr>events := first @ later'\<rparr>))"
proof -
  let ?s = "s\<lparr>events := first @ later\<rparr>"
  let ?t = "s\<lparr>events := first @ later'\<rparr>"
  have ag: "agree_upto 80 (link_requested ?s) (link_requested ?t)"
    using assms by (simp add: agree_upto_def link_requested_events_update)
  have "wifi_connected (polls k (link_requested ?t)) = wifi_connected (polls k (link_requested ?s))"
    if "k \<le> 80" for k
  proof -
    from that ag have "agree_upto ((80 - k) + k) (link_requested ?s) (link_requested ?t)" by simp
    then have "agree_upto (80 - k) (polls k (link_requested ?s)) (polls k (link_requested ?t))"
      by (rule agree_upto_polls)
    then show ?thesis by (rule agree_upto_wifi_connected)
  qed
  then have "(\<exists>k\<le>80. wifi_connected (polls k (link_requested ?t)))
             \<longleftrightarrow> (\<exists>k\<le>80. wifi_connected (polls k (link_requested ?s)))"
    by auto
  then have "fst (attempt_wifi_connect ?t) = ESP_OK \<longleftrightarrow> fst (attempt_wifi_connect ?s) = ESP_OK"
    by (simp only: attempt_ok_iff)
  then show ?thesis
    by (simp add: attempt_wifi_connect_eq split: if_splits)
qed


lemma link_requested_effect:
  "wifi_connected (link_requested s) = False"
  "trace (link_requested s) = trace s @ [Wifi_set_mode_sta,
      Wifi_set_config (strncpy (ssid s) 32) (strncpy (wifi_pass s) 64), Wifi_start, Wifi_connect]"
  by (simp_all add: link_requested_def esp_wifi_set_mode_def esp_wifi_set_config_def
      esp_wifi_start_def esp_wifi_connect_def)

lemma attempt_wifi_connect_polls:
  "\<exists>k\<le>80. snd (attempt_wifi_connect s) = polls k (link_requested s) \<and>
           (\<forall>j<k. \<not> wifi_connected (polls j (link_requested s))) \<and>
           (fst (attempt_wifi_connect s) = ESP_OK \<longleftrightarrow> wifi_connected (polls k (link_requested s))) \<and>
           (fst (attempt_wifi_connect s) \<noteq> ESP_OK \<longrightarrow> fst (attempt_wifi_connect s) = ESP_FAIL \<and> k = 80)"
proof -
  from wait_connected_polls [of 0 "link_requested s"] obtain k where
    k: "k \<le> 80" "wait_connected 0 (link_requested s) = (k, polls k (link_requested s))"
       "\<forall>j<k. \<not> wifi_connected (polls j (link_requested s))"
       "wifi_connected (polls k (link_requested s)) \<or> k = 80"
    by auto
  then show ?thesis
    by (intro exI [of _ k]) (auto simp: attempt_wifi_connect_eq)
qed

text \<open>
  C3. \<open>attempt_wifi_connect\<close> first sets \<open>wifi_connected\<close> to false and issues the connect
  call (\<open>link_requested\<close>), then waits in polls of 100 ms, at most 80 of them. It stops at
  the first poll that sees the flag up, so no earlier poll saw it, and answers
  \<^const>\<open>ESP_OK\<close> exactly when some poll of the window saw it up; otherwise it answers
  \<^const>\<open>ESP_FAIL\<close> after all 80 polls. What the driver delivers after the first 80 batches
  does not change the answer. The answer is about what the polls saw: a flag that the handler
  raises and clears again between two polls is not seen.
\<close>

theorem attempt_wifi_connect_bounded_wait:
  "wifi_connected (link_requested s) = False \<and>
   trace (link_requested s) = trace s @ [Wifi_set_mode_sta,
      Wifi_set_config (strncpy (ssid s) 32) (strncpy (wifi_pass s) 64), Wifi_start, Wifi_connect] \<and>
   (\<exists>k\<le>80. snd (attempt_wifi_connect s) = polls k (link_requested s) \<and>
           trace (snd (attempt_wifi_connect s))
             = trace (link_requested s) @ replicate k (Task_delay 100) \<and>
           (\<forall>j<k. \<not> wifi_connected (polls j (link_requested s))) \<and>
           (fst (attempt_wifi_connect s) = ESP_OK \<longleftrightarrow> wifi_connected (polls k (link_requested s))) \<and>
           (fst (attempt_wifi_connect s) \<noteq> ESP_OK \<longrightarrow>
              fst (attempt_wifi_connect s) = ESP_FAIL \<and> k = 80)) \<and>
   (fst (attempt_wifi_connect s) = ESP_OK \<longleftrightarrow>
      (\<exists>k\<le>80. wifi_connected (polls k (link_requested s)))) \<and>
   (\<forall>first later later'. length first = 80 \<longrightarrow>
      fst (attempt_wifi_connect (s\<lparr>events := first @ later\<rparr>))
        = fst (attempt_wifi_connect (s\<lparr>events := first @ later'\<rparr>)))"
proof (intro conjI)
  show "wifi_connected (link_requested s) = False" by (rule link_requested_effect)
  show "trace (link_requested s) = trace s @ [Wifi_set_mode_sta,
      Wifi_set_config (strncpy (ssid s) 32) (strncpy (wifi_pass s) 64), Wifi_start, Wifi_connect]"
    by (rule link_requested_effect)
  from attempt_wifi_connect_polls [of s] obtain k where
    k: "k \<le> 80" "snd (attempt_wifi_connect s) = polls k (link_requested s)"
       "\<forall>j<k. \<not> wifi_connected (polls j (link_requested s))"
       "fst (attempt_wifi_connect s) = ESP_OK \<longleftrightarrow> wifi_connected (polls k (link_requested s))"
       "fst (attempt_wifi_connect s) \<noteq> ESP_OK \<longrightarrow> fst (attempt_wifi_connect s) = ESP_FAIL \<and> k = 80"
    by blast
  have "trace (snd (attempt_wifi_connect s)) = trace (link_requested s) @ replicate k (Task_delay 100)"
    by (simp add: k(2) trace_polls)
  with k show "\<exists>k\<le>80. snd (attempt_wifi_connect s) = polls k (link_requested s) \<and>
           trace (snd (attempt_wifi_connect s))
             = trace (link_requested s) @ replicate k (Task_delay 100) \<and>
           (\<forall>j<k. \<not> wifi_connected (polls j (link_requested s))) \<and>
           (fst (attempt_wifi_connect s) = ESP_OK \<longleftrightarrow> wifi_connected (polls k (link_requested s))) \<and>
           (fst (attempt_wifi_connect s) \<noteq> ESP_OK \<longrightarrow>
              fst (attempt_wifi_connect s) = ESP_FAIL \<and> k = 80)"
    by blast
  show "fst (attempt_wifi_connect s) = ESP_OK \<longleftrightarrow>
      (\<exists>k\<le>80. wifi_connected (polls k (link_requested s)))"
    by (rule attempt_ok_iff)
  show "\<forall>first later later'. length first = 80 \<longrightarrow>
      fst (attempt_wifi_connect (s\<lparr>events := first @ later\<rparr>))
        = fst (attempt_wifi_connect (s\<lparr>events := first @ later'\<rparr>))"
    by (intro allI impI) (rule attempt_ignores_later_events)
qed

text \<open>The address arrives during the third poll: success, after three polls.\<close>

definition got_ip_third :: "event list list" where
  "got_ip_third = [[WIFI_EVENT WIFI_EVENT_STA_START], [], [IP_EVENT IP_EVENT_STA_GOT_IP]]"

lemma got_ip_third_polls:
  "\<not> wifi_connected (polls 2 (link_requested (boot_state fl rxs got_ip_third)))"
  "wifi_connected (polls 3 (link_requested (boot_state fl rxs got_ip_third)))"
  by (simp_all add: polls_def eval_nat_numeral vTaskDelay_def deliver_def run_handlers_def
      dispatch_def wifi_event_handler_def handler_emit_def emit_def link_requested_def
      esp_wifi_set_mode_def esp_wifi_set_config_def esp_wifi_start_def esp_wifi_connect_def
      boot_state_def got_ip_third_def)

theorem attempt_wifi_connect_bounded_wait_witness:
  "fst (attempt_wifi_connect (boot_state (flash_with Map.empty) [] got_ip_third)) = ESP_OK \<and>
   (\<exists>k\<le>80. trace (snd (attempt_wifi_connect (boot_state (flash_with Map.empty) [] got_ip_third)))
      = [Wifi_set_mode_sta, Wifi_set_config (replicate 32 NUL) (replicate 64 NUL), Wifi_start,
         Wifi_connect] @ replicate k (Task_delay 100))"
proof -
  let ?s = "boot_state (flash_with Map.empty) [] got_ip_third"
  note T = attempt_wifi_connect_bounded_wait [of ?s]
  have "\<exists>k\<le>80. wifi_connected (polls k (link_requested ?s))"
    using got_ip_third_polls(2) by (intro exI [of _ 3]) simp
  with T have ok: "fst (attempt_wifi_connect ?s) = ESP_OK" by blast
  have tr: "trace (link_requested ?s)
      = [Wifi_set_mode_sta, Wifi_set_config (replicate 32 NUL) (replicate 64 NUL), Wifi_start,
         Wifi_connect]"
    using T by (simp add: boot_state_def strncpy_def cstr_def)
  from T obtain k where "k \<le> 80"
    "trace (snd (attempt_wifi_connect ?s)) = trace (link_requested ?s) @ replicate k (Task_delay 100)"
    by blast
  with ok tr show ?thesis by auto
qed

text \<open>
  The driver reports the address and, in the same batch, the loss of the association: the
  handler raises the flag and lowers it again before the main task looks.
\<close>

definition flap_session :: state where
  "flap_session =
     boot_state (flash_with Map.empty) []
       [[IP_EVENT IP_EVENT_STA_GOT_IP, WIFI_EVENT WIFI_EVENT_STA_DISCONNECTED]]"

text \<open>The state inside the first poll, between the two events of its batch.\<close>

definition flap_between :: state where
  "flap_between =
     dispatch (IP_EVENT IP_EVENT_STA_GOT_IP)
       ((emit (Task_delay 100) (link_requested flap_session))\<lparr>events := []\<rparr>)"

lemma flap_first_poll:
  "vTaskDelay 100 (link_requested flap_session)
     = dispatch (WIFI_EVENT WIFI_EVENT_STA_DISCONNECTED) flap_between"
  by (simp add: flap_between_def vTaskDelay_def deliver_def run_handlers_def emit_def
      link_requested_def esp_wifi_set_mode_def esp_wifi_set_config_def esp_wifi_start_def
      esp_wifi_connect_def flap_session_def boot_state_def)

lemma flap_between_up:
  "wifi_connected flap_between"
  "handler_trace flap_between = [Esp_log LOG_I ''Wi-Fi Connected! IP Obtained.'']"
  by (simp_all add: flap_between_def dispatch_def wifi_event_handler_def handler_emit_def
      emit_def link_requested_def esp_wifi_set_mode_def esp_wifi_set_config_def
      esp_wifi_start_def esp_wifi_connect_def flap_session_def boot_state_def)

lemma flap_after_first_poll:
  "\<not> wifi_connected (vTaskDelay 100 (link_requested flap_session))"
  "events (vTaskDelay 100 (link_requested flap_session)) = []"
  "handler_trace (vTaskDelay 100 (link_requested flap_session))
     = [Esp_log LOG_I ''Wi-Fi Connected! IP Obtained.'']"
  unfolding flap_first_poll
  by (simp_all add: flap_between_def dispatch_def wifi_event_handler_def
      handler_emit_def emit_def link_requested_def esp_wifi_set_mode_def esp_wifi_set_config_def
      esp_wifi_start_def esp_wifi_connect_def flap_session_def boot_state_def)

lemma flap_polls:
  "\<not> wifi_connected (polls k (link_requested flap_session))"
  "0 < k \<Longrightarrow> handler_trace (polls k (link_requested flap_session))
     = [Esp_log LOG_I ''Wi-Fi Connected! IP Obtained.'']"
proof -
  show "\<not> wifi_connected (polls k (link_requested flap_session))"
  proof (cases k)
    case 0
    then show ?thesis by (simp add: link_requested_effect)
  next
    case (Suc j)
    then show ?thesis
      by (simp add: polls_Suc polls_no_events [OF flap_after_first_poll(2)] flap_after_first_poll(1))
  qed
  assume "0 < k"
  then obtain j where "k = Suc j" by (cases k) simp_all
  then show "handler_trace (polls k (link_requested flap_session))
     = [Esp_log LOG_I ''Wi-Fi Connected! IP Obtained.'']"
    by (simp add: polls_Suc polls_no_events [OF flap_after_first_poll(2)] flap_after_first_poll(3))
qed

text \<open>
  C3, the part that does not hold. The claim: the attempt succeeds if and only if Link Status
  reached Up within the window. In \<open>flap_session\<close> the handler sets \<open>wifi_connected\<close> during
  the first poll and logs the connection, the same batch clears the flag before the loop
  tests it, and after 80 polls the attempt answers \<^const>\<open>ESP_FAIL\<close>.
\<close>

theorem attempt_wifi_connect_misses_flap:
  "wifi_connected flap_between \<and>
   polls 1 (link_requested flap_session)
     = dispatch (WIFI_EVENT WIFI_EVENT_STA_DISCONNECTED) flap_between \<and>
   fst (attempt_wifi_connect flap_session) = ESP_FAIL \<and>
   handler_trace (snd (attempt_wifi_connect flap_session))
     = [Esp_log LOG_I ''Wi-Fi Connected! IP Obtained.''] \<and>
   trace (snd (attempt_wifi_connect flap_session))
     = [Wifi_set_mode_sta, Wifi_set_config (replicate 32 NUL) (replicate 64 NUL), Wifi_start,
        Wifi_connect] @ replicate 80 (Task_delay 100)"
proof -
  from attempt_wifi_connect_polls [of flap_session] obtain k where
    k: "snd (attempt_wifi_connect flap_session) = polls k (link_requested flap_session)"
       "fst (attempt_wifi_connect flap_session) = ESP_OK \<longleftrightarrow>
          wifi_connected (polls k (link_requested flap_session))"
       "fst (attempt_wifi_connect flap_session) \<noteq> ESP_OK \<longrightarrow>
          fst (attempt_wifi_connect flap_session) = ESP_FAIL \<and> k = 80"
    by blast
  from k(2) flap_polls(1) have nok: "fst (attempt_wifi_connect flap_session) \<noteq> ESP_OK" by simp
  with k(3) have f: "fst (attempt_wifi_connect flap_session) = ESP_FAIL" and k80: "k = 80"
    by simp_all
  have p1: "polls 1 (link_requested flap_session)
     = dispatch (WIFI_EVENT WIFI_EVENT_STA_DISCONNECTED) flap_between"
    by (simp add: polls_def flap_first_poll)
  have h: "handler_trace (snd (attempt_wifi_connect flap_session))
     = [Esp_log LOG_I ''Wi-Fi Connected! IP Obtained.'']"
    by (simp add: k(1) k80 flap_polls(2))
  have "trace (link_requested flap_session)
      = [Wifi_set_mode_sta, Wifi_set_config (replicate 32 NUL) (replicate 64 NUL), Wifi_start,
         Wifi_connect]"
    by (simp add: link_requested_effect flap_session_def boot_state_def strncpy_def cstr_def)
  then have t: "trace (snd (attempt_wifi_connect flap_session))
     = [Wifi_set_mode_sta, Wifi_set_config (replicate 32 NUL) (replicate 64 NUL), Wifi_start,
        Wifi_connect] @ replicate 80 (Task_delay 100)"
    by (simp only: k(1) k80 trace_polls)
  from flap_between_up(1) p1 f h t show ?thesis by (intro conjI)
qed

section \<open>MQTT endpoint and the publish loop\<close>

lemma sint_mod_100: "sint (r mod 100 :: 32 word) = uint r mod 100"
proof -
  have u: "uint (r mod 100) = uint r mod 100" by (simp add: uint_mod)
  have "0 \<le> uint r mod 100" "uint r mod 100 < 100" by simp_all
  then have "signed_take_bit (31::nat) (uint r mod 100) = uint r mod 100"
    by (intro signed_take_bit_int_eq_self) simp_all
  then show ?thesis by (simp add: sint_uint u)
qed

text \<open>The value a string of decimal digits denotes.\<close>

definition dec_value :: "string \<Rightarrow> nat" where
  "dec_value str = foldl (\<lambda>a c. 10 * a + (of_char c - 48)) 0 str"

definition is_digit :: "char \<Rightarrow> bool" where
  "is_digit c \<longleftrightarrow> 48 \<le> (of_char c :: nat) \<and> (of_char c :: nat) \<le> 57"

lemma of_char_digit_char: "d < 10 \<Longrightarrow> (of_char (digit_char d) :: nat) = 48 + d"
  by (simp add: digit_char_def)

lemma dec_digits_value: "dec_value (dec_digits n) = n"
proof (induction n rule: dec_digits.induct)
  case (1 n)
  show ?case
  proof (cases "n < 10")
    case True
    then show ?thesis
      by (subst dec_digits.simps) (simp add: dec_value_def of_char_digit_char)
  next
    case False
    with "1.IH" have "dec_value (dec_digits (n div 10)) = n div 10" by simp
    with False show ?thesis
      by (subst dec_digits.simps) (simp add: dec_value_def of_char_digit_char)
  qed
qed

lemma dec_digits_digits: "\<forall>c\<in>set (dec_digits n). is_digit c"
proof (induction n rule: dec_digits.induct)
  case (1 n)
  show ?case
  proof (cases "n < 10")
    case True
    then show ?thesis
      by (subst dec_digits.simps) (simp add: is_digit_def of_char_digit_char)
  next
    case False
    with "1.IH" have "\<forall>c\<in>set (dec_digits (n div 10)). is_digit c" by simp
    with False show ?thesis
      by (subst dec_digits.simps) (simp add: is_digit_def of_char_digit_char)
  qed
qed

lemma dec_digits_small: "n < 10 \<Longrightarrow> dec_digits n = [digit_char n]"
  by (subst dec_digits.simps) simp

lemma dec_digits_length: "n < 100 \<Longrightarrow> length (dec_digits n) \<le> 2"
proof (cases "n < 10")
  case True
  then show ?thesis by (simp add: dec_digits_small)
next
  case False
  assume "n < 100"
  then have "n div 10 < 10" by simp
  with False show ?thesis
    by (subst dec_digits.simps) (simp add: dec_digits_small)
qed

text \<open>The reading and the payload of the tick that starts in state s.\<close>

definition reading :: "state \<Rightarrow> nat" where
  "reading s = unat (rng s (rng_calls s)) mod 100"

lemma fmt_reading:
  "snprintf 16 (fmt_d (sint (rng s (rng_calls s) mod 100))) = dec_digits (reading s)"
proof -
  have "sint (rng s (rng_calls s) mod 100) = int (reading s)"
    by (simp add: sint_mod_100 reading_def zmod_int)
  moreover have "length (dec_digits (reading s)) \<le> 2"
    by (rule dec_digits_length) (simp add: reading_def)
  ultimately show ?thesis by (simp add: fmt_d_def snprintf_def)
qed

lemma loop_body_publish:
  "wifi_connected s \<Longrightarrow> mqtt_connected s \<Longrightarrow>
   loop_body s =
     emit (Esp_log LOG_I (''Published: '' @ dec_digits (reading s)))
       (emit (Mqtt_publish (cstr (mqtt_topic s)) (dec_digits (reading s)) 0 1 0)
          (s\<lparr>rng_calls := rng_calls s + 1, publish_calls := publish_calls s + 1\<rparr>))"
  by (simp add: loop_body_def esp_random_def esp_mqtt_client_publish_def esp_log_def
      Let_def fmt_reading)

lemma loop_body_reconnect:
  "\<not> wifi_connected s \<Longrightarrow>
   loop_body s = emit Wifi_connect (emit (Esp_log LOG_W ''Wi-Fi Lost. Reconnecting...'') s)"
  by (simp add: loop_body_def esp_wifi_connect_def esp_log_def)

lemma loop_body_idle: "wifi_connected s \<Longrightarrow> \<not> mqtt_connected s \<Longrightarrow> loop_body s = s"
  by (simp add: loop_body_def)

text \<open>
  C6. A tick that starts with the link down logs the loss and calls \<open>esp_wifi_connect\<close>
  once, then sleeps: no publish. A tick that starts with the link up and the session down
  only sleeps. (A connect call made by \<open>wifi_event_handler\<close> during the sleep is in
  \<open>handler_trace\<close>, not in the loop's \<open>trace\<close>.)
\<close>

theorem loop_reconnect_trigger:
  "(\<not> wifi_connected s \<longrightarrow>
      trace (loop_iteration s)
        = trace s @ [Esp_log LOG_W ''Wi-Fi Lost. Reconnecting...'', Wifi_connect, Task_delay 10000]) \<and>
   (wifi_connected s \<and> \<not> mqtt_connected s \<longrightarrow>
      trace (loop_iteration s) = trace s @ [Task_delay 10000])"
  by (simp add: loop_iteration_def loop_body_reconnect loop_body_idle)

definition steady_state :: "bool \<Rightarrow> bool \<Rightarrow> state" where
  "steady_state link session =
     (boot_state (flash_with Map.empty) [] [])\<lparr>wifi_connected := link, mqtt_connected := session,
        mqtt_registered := True, mqtt_topic := ''sensors/a'' @ replicate 55 NUL\<rparr>"

theorem loop_reconnect_trigger_witness:
  "trace (loop_iteration (steady_state False True))
     = [Esp_log LOG_W ''Wi-Fi Lost. Reconnecting...'', Wifi_connect, Task_delay 10000] \<and>
   trace (loop_iteration (steady_state True False)) = [Task_delay 10000]"
  using loop_reconnect_trigger [of "steady_state False True"]
    loop_reconnect_trigger [of "steady_state True False"]
  by (simp add: steady_state_def boot_state_def)


lemma length_cstr: "length (cstr b) \<le> length b"
  by (simp add: cstr_def length_takeWhile_le)

lemma start_mqtt_uri:
  "length (mqtt_broker s) = 64 \<Longrightarrow>
   start_mqtt s = emit (Mqtt_client_start (''mqtt://'' @ cstr (mqtt_broker s) @ '':1883''))
                    (s\<lparr>mqtt_registered := True\<rparr>)"
proof -
  assume "length (mqtt_broker s) = 64"
  with length_cstr [of "mqtt_broker s"] have "length (cstr (mqtt_broker s)) \<le> 64" by simp
  then show ?thesis by (simp add: start_mqtt_def snprintf_def)
qed

text \<open>
  C9. The endpoint given to the MQTT client is \<^verbatim>\<open>mqtt://\<close>, the broker string as it
  stands in the 64-byte buffer, and \<^verbatim>\<open>:1883\<close>. A publish carries the topic string of the
  buffer, the decimal digits of a reading below 100 (the random word modulo 100), length
  argument 0, QoS 1 and retain 0.
\<close>

theorem mqtt_endpoint_and_publish_format:
  "(length (mqtt_broker s) = 64 \<longrightarrow>
      trace (start_mqtt s)
        = trace s @ [Mqtt_client_start (''mqtt://'' @ cstr (mqtt_broker s) @ '':1883'')]) \<and>
   (wifi_connected s \<and> mqtt_connected s \<longrightarrow>
      (\<exists>p. trace (loop_body s) = trace s @ [p, Esp_log LOG_I (''Published: '' @ pub_data p)] \<and>
           p = Mqtt_publish (cstr (mqtt_topic s)) (dec_digits (reading s)) 0 1 0 \<and>
           pub_topic p = cstr (mqtt_topic s) \<and> pub_qos p = 1 \<and> pub_retain p = 0 \<and>
           pub_data p = dec_digits (reading s) \<and> reading s < 100 \<and>
           reading s = unat (rng s (rng_calls s)) mod 100 \<and>
           dec_value (pub_data p) = reading s \<and> (\<forall>c\<in>set (pub_data p). is_digit c)))"
proof (intro conjI impI)
  assume "length (mqtt_broker s) = 64"
  then show "trace (start_mqtt s)
        = trace s @ [Mqtt_client_start (''mqtt://'' @ cstr (mqtt_broker s) @ '':1883'')]"
    by (simp add: start_mqtt_uri)
next
  assume up: "wifi_connected s \<and> mqtt_connected s"
  let ?p = "Mqtt_publish (cstr (mqtt_topic s)) (dec_digits (reading s)) 0 1 0"
  have "trace (loop_body s) = trace s @ [?p, Esp_log LOG_I (''Published: '' @ pub_data ?p)]"
    using up by (simp add: loop_body_publish)
  moreover have "reading s < 100" by (simp add: reading_def)
  moreover have "dec_value (pub_data ?p) = reading s" by (simp add: dec_digits_value)
  moreover have "\<forall>c\<in>set (pub_data ?p). is_digit c" using dec_digits_digits by simp
  ultimately show "\<exists>p. trace (loop_body s) = trace s @ [p, Esp_log LOG_I (''Published: '' @ pub_data p)] \<and>
           p = Mqtt_publish (cstr (mqtt_topic s)) (dec_digits (reading s)) 0 1 0 \<and>
           pub_topic p = cstr (mqtt_topic s) \<and> pub_qos p = 1 \<and> pub_retain p = 0 \<and>
           pub_data p = dec_digits (reading s) \<and> reading s < 100 \<and>
           reading s = unat (rng s (rng_calls s)) mod 100 \<and>
           dec_value (pub_data p) = reading s \<and> (\<forall>c\<in>set (pub_data p). is_digit c)"
    by (intro exI [of _ ?p]) (simp add: reading_def)
qed

text \<open>A node with broker 10.0.0.5, topic sensors/a, whose random source gives 1234567.\<close>

definition demo_node :: state where
  "demo_node =
     (steady_state True True)\<lparr>mqtt_broker := ''10.0.0.5'' @ replicate 56 NUL, rng := (\<lambda>n. 1234567)\<rparr>"

lemma dec_digits_67: "dec_digits 67 = ''67''"
  by code_simp

theorem mqtt_endpoint_and_publish_format_witness:
  "trace (start_mqtt demo_node) = [Mqtt_client_start ''mqtt://10.0.0.5:1883''] \<and>
   trace (loop_body demo_node)
     = [Mqtt_publish ''sensors/a'' ''67'' 0 1 0, Esp_log LOG_I ''Published: 67'']"
proof -
  have b: "length (mqtt_broker demo_node) = 64"
    and up: "wifi_connected demo_node \<and> mqtt_connected demo_node"
    and tr: "trace demo_node = []"
    and cs: "cstr (mqtt_broker demo_node) = ''10.0.0.5''" "cstr (mqtt_topic demo_node) = ''sensors/a''"
    and rd: "reading demo_node = 67"
    by (simp_all add: demo_node_def steady_state_def boot_state_def cstr_def reading_def)
  from mqtt_endpoint_and_publish_format [of demo_node] b up
  show ?thesis by (auto simp: tr cs rd dec_digits_67)
qed


subsection \<open>Publish gating\<close>

fun is_publish :: "action \<Rightarrow> bool" where
  "is_publish (Mqtt_publish topic data len qos retain) = True"
| "is_publish a = False"

text \<open>What the event handlers read: the two flags, the registration and the pending events.\<close>

definition same_link :: "state \<Rightarrow> state \<Rightarrow> bool" where
  "same_link s t \<longleftrightarrow>
     wifi_connected s = wifi_connected t \<and> mqtt_connected s = mqtt_connected t \<and>
     mqtt_registered s = mqtt_registered t \<and> events s = events t"

lemma same_link_dispatch: "same_link s t \<Longrightarrow> same_link (dispatch ev s) (dispatch ev t)"
  by (auto simp: same_link_def dispatch_def wifi_event_handler_def mqtt_event_handler_def
      handler_emit_def split: event.splits)

lemma same_link_run_handlers:
  "same_link s t \<Longrightarrow> same_link (run_handlers evs s) (run_handlers evs t)"
  unfolding run_handlers_def
  by (induction evs arbitrary: s t) (simp_all add: same_link_dispatch)

lemma same_link_deliver: "same_link s t \<Longrightarrow> same_link (deliver s) (deliver t)"
proof -
  assume a: "same_link s t"
  then have ev: "events s = events t" by (simp add: same_link_def)
  show ?thesis
  proof (cases "events s")
    case Nil
    with ev a show ?thesis by (simp add: deliver_def)
  next
    case (Cons e es)
    from a have "same_link (s\<lparr>events := es\<rparr>) (t\<lparr>events := es\<rparr>)"
      by (simp add: same_link_def)
    then have "same_link (run_handlers e (s\<lparr>events := es\<rparr>)) (run_handlers e (t\<lparr>events := es\<rparr>))"
      by (rule same_link_run_handlers)
    with Cons ev show ?thesis by (simp add: deliver_def)
  qed
qed

lemma same_link_loop_body: "same_link (loop_body s) s"
  by (cases "wifi_connected s"; cases "mqtt_connected s")
     (simp_all add: loop_body_publish loop_body_reconnect loop_body_idle same_link_def)

lemma loop_iteration_link:
  "wifi_connected (loop_iteration s) = wifi_connected (deliver s)"
  "mqtt_connected (loop_iteration s) = mqtt_connected (deliver s)"
proof -
  have "same_link (emit (Task_delay 10000) (loop_body s)) s"
    using same_link_loop_body [of s] by (simp add: same_link_def)
  then have "same_link (loop_iteration s) (deliver s)"
    unfolding loop_iteration_def vTaskDelay_def by (rule same_link_deliver)
  then show "wifi_connected (loop_iteration s) = wifi_connected (deliver s)"
    "mqtt_connected (loop_iteration s) = mqtt_connected (deliver s)"
    by (simp_all add: same_link_def)
qed

lemma dispatch_publish_ret_update:
  "dispatch ev (s\<lparr>publish_ret := f\<rparr>) = (dispatch ev s)\<lparr>publish_ret := f\<rparr>"
  by (simp add: dispatch_def wifi_event_handler_def mqtt_event_handler_def handler_emit_def
      split: event.splits)

lemma run_handlers_publish_ret_update:
  "run_handlers evs (s\<lparr>publish_ret := f\<rparr>) = (run_handlers evs s)\<lparr>publish_ret := f\<rparr>"
  unfolding run_handlers_def
  by (induction evs arbitrary: s) (simp_all add: dispatch_publish_ret_update)

lemma deliver_publish_ret_update:
  "deliver (s\<lparr>publish_ret := f\<rparr>) = (deliver s)\<lparr>publish_ret := f\<rparr>"
proof (cases "events s")
  case Nil
  then show ?thesis by (simp add: deliver_def)
next
  case (Cons e es)
  then show ?thesis
    by (simp add: deliver_def run_handlers_events_update run_handlers_publish_ret_update)
qed

lemma emit_publish_ret_update:
  "emit a (s\<lparr>publish_ret := f\<rparr>) = (emit a s)\<lparr>publish_ret := f\<rparr>"
  by (simp add: emit_def)

lemma loop_body_publish_ret_update:
  "loop_body (s\<lparr>publish_ret := f\<rparr>) = (loop_body s)\<lparr>publish_ret := f\<rparr>"
  by (cases "wifi_connected s"; cases "mqtt_connected s")
     (simp_all add: loop_body_publish loop_body_reconnect loop_body_idle reading_def emit_def)

lemma loop_iteration_publish_ret_update:
  "loop_iteration (s\<lparr>publish_ret := f\<rparr>) = (loop_iteration s)\<lparr>publish_ret := f\<rparr>"
  by (simp only: loop_iteration_def vTaskDelay_def loop_body_publish_ret_update
      emit_publish_ret_update deliver_publish_ret_update)

lemma publish_loop_delays:
  "length (filter (\<lambda>a. a = Task_delay 10000) (trace (publish_loop n s)))
     = length (filter (\<lambda>a. a = Task_delay 10000) (trace s)) + n"
proof (induction n arbitrary: s)
  case 0
  show ?case by simp
next
  case (Suc n)
  have "length (filter (\<lambda>a. a = Task_delay 10000) (trace (loop_iteration s)))
          = length (filter (\<lambda>a. a = Task_delay 10000) (trace s)) + 1"
    by (cases "wifi_connected s"; cases "mqtt_connected s")
       (simp_all add: loop_iteration_def loop_body_publish loop_body_reconnect loop_body_idle)
  then show ?case by (simp add: Suc.IH)
qed


text \<open>
  C5, the claim as stated: a failed publish is logged. The code discards what
  \<open>esp_mqtt_client_publish\<close> returns. When the call answers -1 the tick logs the same
  \<^verbatim>\<open>Published\<close> line, at the same level, as when it succeeds, and nothing else.
\<close>

definition failing_publish_node :: state where
  "failing_publish_node = (steady_state True True)\<lparr>publish_ret := (\<lambda>n. - 1)\<rparr>"

theorem failed_publish_logged_as_published:
  "publish_ret failing_publish_node (publish_calls failing_publish_node) = - 1 \<and>
   trace (loop_iteration failing_publish_node)
     = [Mqtt_publish ''sensors/a'' ''0'' 0 1 0, Esp_log LOG_I ''Published: 0'', Task_delay 10000] \<and>
   trace (loop_iteration failing_publish_node) = trace (loop_iteration (steady_state True True))"
proof -
  have rd: "reading (steady_state True True) = 0"
    by (simp add: reading_def steady_state_def boot_state_def)
  have d0: "dec_digits 0 = ''0''" by code_simp
  have tr: "trace (loop_iteration (steady_state True True))
     = [Mqtt_publish ''sensors/a'' ''0'' 0 1 0, Esp_log LOG_I ''Published: 0'', Task_delay 10000]"
    unfolding loop_iteration_def
    by (subst loop_body_publish)
       (simp_all add: rd d0, simp_all add: steady_state_def boot_state_def cstr_def)
  show ?thesis
    by (simp add: failing_publish_node_def loop_iteration_publish_ret_update tr)
qed

text \<open>
  C5, amended. In every tick a reading is published exactly when both flags are up at its
  start. The value the publish call returns is discarded: a state with other answers goes
  through the same tick, so a failed publish leaves the same \<^verbatim>\<open>Published\<close> log line as a
  successful one. The loop body writes neither flag; after the sleep the flags are what the
  event handlers made of them. n iterations of the loop sleep n times: nothing stops it.
\<close>

theorem loop_publish_gating:
  "filter is_publish (trace (loop_iteration s))
     = filter is_publish (trace s) @
       (if wifi_connected s \<and> mqtt_connected s
        then [Mqtt_publish (cstr (mqtt_topic s)) (dec_digits (reading s)) 0 1 0] else []) \<and>
   (wifi_connected s \<and> mqtt_connected s \<longrightarrow>
      trace (loop_iteration s)
        = trace s @ [Mqtt_publish (cstr (mqtt_topic s)) (dec_digits (reading s)) 0 1 0,
                     Esp_log LOG_I (''Published: '' @ dec_digits (reading s)), Task_delay 10000]) \<and>
   loop_iteration (s\<lparr>publish_ret := f\<rparr>) = (loop_iteration s)\<lparr>publish_ret := f\<rparr> \<and>
   wifi_connected (loop_body s) = wifi_connected s \<and>
   mqtt_connected (loop_body s) = mqtt_connected s \<and>
   wifi_connected (loop_iteration s) = wifi_connected (deliver s) \<and>
   mqtt_connected (loop_iteration s) = mqtt_connected (deliver s) \<and>
   length (filter (\<lambda>a. a = Task_delay 10000) (trace (publish_loop n s)))
     = length (filter (\<lambda>a. a = Task_delay 10000) (trace s)) + n"
proof (intro conjI impI)
  show "filter is_publish (trace (loop_iteration s))
     = filter is_publish (trace s) @
       (if wifi_connected s \<and> mqtt_connected s
        then [Mqtt_publish (cstr (mqtt_topic s)) (dec_digits (reading s)) 0 1 0] else [])"
    by (cases "wifi_connected s"; cases "mqtt_connected s")
       (simp_all add: loop_iteration_def loop_body_publish loop_body_reconnect loop_body_idle)
  show "trace (loop_iteration s)
        = trace s @ [Mqtt_publish (cstr (mqtt_topic s)) (dec_digits (reading s)) 0 1 0,
                     Esp_log LOG_I (''Published: '' @ dec_digits (reading s)), Task_delay 10000]"
    if "wifi_connected s \<and> mqtt_connected s"
    using that by (simp add: loop_iteration_def loop_body_publish)
  show "loop_iteration (s\<lparr>publish_ret := f\<rparr>) = (loop_iteration s)\<lparr>publish_ret := f\<rparr>"
    by (rule loop_iteration_publish_ret_update)
  show "wifi_connected (loop_body s) = wifi_connected s"
    "mqtt_connected (loop_body s) = mqtt_connected s"
    using same_link_loop_body [of s] by (simp_all add: same_link_def)
  show "wifi_connected (loop_iteration s) = wifi_connected (deliver s)"
    "mqtt_connected (loop_iteration s) = mqtt_connected (deliver s)"
    by (rule loop_iteration_link)+
  show "length (filter (\<lambda>a. a = Task_delay 10000) (trace (publish_loop n s)))
     = length (filter (\<lambda>a. a = Task_delay 10000) (trace s)) + n"
    by (rule publish_loop_delays)
qed

theorem loop_publish_gating_witness:
  "filter is_publish (trace (loop_iteration demo_node)) = [Mqtt_publish ''sensors/a'' ''67'' 0 1 0] \<and>
   filter is_publish (trace (loop_iteration (steady_state True False))) = [] \<and>
   filter is_publish (trace (loop_iteration (steady_state False True))) = []"
proof -
  have a: "wifi_connected demo_node \<and> mqtt_connected demo_node" "trace demo_node = []"
    "cstr (mqtt_topic demo_node) = ''sensors/a''" "reading demo_node = 67"
    by (simp_all add: demo_node_def steady_state_def boot_state_def cstr_def reading_def)
  have b: "wifi_connected (steady_state True False)" "\<not> mqtt_connected (steady_state True False)"
    "trace (steady_state True False) = []"
    "\<not> wifi_connected (steady_state False True)" "trace (steady_state False True) = []"
    by (simp_all add: steady_state_def boot_state_def)
  from loop_publish_gating [of demo_node] loop_publish_gating [of "steady_state True False"]
    loop_publish_gating [of "steady_state False True"]
  show ?thesis by (simp add: a b dec_digits_67)
qed

section \<open>Boot menu: the Auto Connect branch\<close>

text \<open>The code a load of a key answers depends on the flash, the key and the capacity only.\<close>

definition load_code :: "nvs_flash \<Rightarrow> string \<Rightarrow> nat \<Rightarrow> esp_err" where
  "load_code fl key max_len = fst (load_from_nvs fl key [] max_len)"

lemma load_from_nvs_code: "fst (load_from_nvs fl key buf max_len) = load_code fl key max_len"
  by (simp add: load_code_def load_from_nvs_def nvs_open_def nvs_get_str_def
      split: option.splits)

lemma load_from_nvs_failed_buffer:
  "fst (load_from_nvs fl key buf max_len) \<noteq> ESP_OK \<Longrightarrow> snd (load_from_nvs fl key buf max_len) = buf"
  by (simp add: load_from_nvs_def nvs_open_def nvs_get_str_def split: option.splits if_splits)

lemma load_cred_eq:
  "load_cred key c s =
     (load_code (nvs s) key (sizeof_buf c),
      set_buf c (snd (load_from_nvs (nvs s) key (get_buf c s) (sizeof_buf c))) s)"
  by (simp add: load_cred_def case_prod_beta load_from_nvs_code)

lemma set_buf_same [simp]: "set_buf c (get_buf c s) s = s"
  by (cases c) simp_all

lemma load_cred_failed:
  "load_code (nvs s) key (sizeof_buf c) \<noteq> ESP_OK \<Longrightarrow> snd (load_cred key c s) = s"
  by (simp add: load_cred_eq load_from_nvs_failed_buffer load_from_nvs_code)

text \<open>A key is missing when the namespace does not exist or does not hold it.\<close>

definition missing :: "string \<Rightarrow> nvs_flash \<Rightarrow> bool" where
  "missing key fl \<longleftrightarrow> (case storage fl of None \<Rightarrow> True | Some m \<Rightarrow> m key = None)"

lemma missing_load_code: "missing key fl \<Longrightarrow> load_code fl key max_len \<noteq> ESP_OK"
  by (auto simp: missing_def load_code_def load_from_nvs_def nvs_open_def nvs_get_str_def
      split: option.splits)

text \<open>The four loads of \<open>auto_connect\<close>, in its order, and the buffers they fill.\<close>

definition ssid_ok :: "state \<Rightarrow> bool" where
  "ssid_ok s \<longleftrightarrow> load_code (nvs s) ''ssid'' 32 = ESP_OK"

definition pass_ok :: "state \<Rightarrow> bool" where
  "pass_ok s \<longleftrightarrow> load_code (nvs s) ''pass'' 64 = ESP_OK"

definition broker_ok :: "state \<Rightarrow> bool" where
  "broker_ok s \<longleftrightarrow> load_code (nvs s) ''broker'' 64 = ESP_OK"

definition topic_ok :: "state \<Rightarrow> bool" where
  "topic_ok s \<longleftrightarrow> load_code (nvs s) ''topic'' 64 = ESP_OK"

definition loaded_ssid :: "state \<Rightarrow> buffer" where
  "loaded_ssid s = snd (load_from_nvs (nvs s) ''ssid'' (ssid s) 32)"

definition loaded_pass :: "state \<Rightarrow> buffer" where
  "loaded_pass s = snd (load_from_nvs (nvs s) ''pass'' (wifi_pass s) 64)"

definition loaded_broker :: "state \<Rightarrow> buffer" where
  "loaded_broker s = snd (load_from_nvs (nvs s) ''broker'' (mqtt_broker s) 64)"

definition loaded_topic :: "state \<Rightarrow> buffer" where
  "loaded_topic s = snd (load_from_nvs (nvs s) ''topic'' (mqtt_topic s) 64)"

definition msg_loading :: string where
  "msg_loading = ''Loading configuration from NVS...\<newline>''"

definition msg_no_config :: string where
  "msg_no_config = ''No saved configuration found! Please use New Setup [N].\<newline>''"

lemma auto_connect_ssid_fails:
  "\<not> ssid_ok s \<Longrightarrow>
   auto_connect s = (False, s\<lparr>trace := trace s @ [Printf msg_loading, Printf msg_no_config]\<rparr>)"
  by (simp add: auto_connect_def Let_def load_cred_eq no_saved_config_def ssid_ok_def
      load_from_nvs_failed_buffer load_from_nvs_code printf_def emit_def msg_loading_def
      msg_no_config_def)

lemma auto_connect_pass_fails:
  "ssid_ok s \<Longrightarrow> \<not> pass_ok s \<Longrightarrow>
   auto_connect s = (False, s\<lparr>ssid := loaded_ssid s,
                             trace := trace s @ [Printf msg_loading, Printf msg_no_config]\<rparr>)"
  by (simp add: auto_connect_def Let_def load_cred_eq no_saved_config_def ssid_ok_def pass_ok_def
      load_from_nvs_failed_buffer load_from_nvs_code printf_def emit_def msg_loading_def
      msg_no_config_def loaded_ssid_def)

lemma auto_connect_broker_fails:
  "ssid_ok s \<Longrightarrow> pass_ok s \<Longrightarrow> \<not> broker_ok s \<Longrightarrow>
   auto_connect s = (False, s\<lparr>ssid := loaded_ssid s, wifi_pass := loaded_pass s,
                             trace := trace s @ [Printf msg_loading, Printf msg_no_config]\<rparr>)"
  by (simp add: auto_connect_def Let_def load_cred_eq no_saved_config_def ssid_ok_def pass_ok_def
      broker_ok_def load_from_nvs_failed_buffer load_from_nvs_code printf_def emit_def
      msg_loading_def msg_no_config_def loaded_ssid_def loaded_pass_def)

lemma auto_connect_topic_fails:
  "ssid_ok s \<Longrightarrow> pass_ok s \<Longrightarrow> broker_ok s \<Longrightarrow> \<not> topic_ok s \<Longrightarrow>
   auto_connect s = (False, s\<lparr>ssid := loaded_ssid s, wifi_pass := loaded_pass s,
                             mqtt_broker := loaded_broker s,
                             trace := trace s @ [Printf msg_loading, Printf msg_no_config]\<rparr>)"
  by (simp add: auto_connect_def Let_def load_cred_eq no_saved_config_def ssid_ok_def pass_ok_def
      broker_ok_def topic_ok_def load_from_nvs_failed_buffer load_from_nvs_code printf_def emit_def
      msg_loading_def msg_no_config_def loaded_ssid_def loaded_pass_def loaded_broker_def)

text \<open>The state handed to the link attempt when the four loads succeed.\<close>

definition config_loaded :: "state \<Rightarrow> state" where
  "config_loaded s =
     s\<lparr>ssid := loaded_ssid s, wifi_pass := loaded_pass s, mqtt_broker := loaded_broker s,
       mqtt_topic := loaded_topic s,
       trace := trace s @ [Printf msg_loading,
         Printf (''Credentials found for SSID: '' @ cstr (loaded_ssid s) @ ''\<newline>Connecting...\<newline>'')]\<rparr>"

lemma auto_connect_all_ok:
  "ssid_ok s \<Longrightarrow> pass_ok s \<Longrightarrow> broker_ok s \<Longrightarrow> topic_ok s \<Longrightarrow>
   auto_connect s =
     (case attempt_wifi_connect (config_loaded s) of
        (err, s6) \<Rightarrow>
          if err = ESP_OK then (True, s6)
          else (False, printf ''Failed to connect! Please use New Setup [N].\<newline>'' s6))"
proof -
  assume ok: "ssid_ok s" "pass_ok s" "broker_ok s" "topic_ok s"
  have "printf (''Credentials found for SSID: '' @ cstr (loaded_ssid s) @ ''\<newline>Connecting...\<newline>'')
          (s\<lparr>trace := trace s @ [Printf msg_loading], ssid := loaded_ssid s,
             wifi_pass := loaded_pass s, mqtt_broker := loaded_broker s,
             mqtt_topic := loaded_topic s\<rparr>) = config_loaded s"
    by (simp add: config_loaded_def printf_def emit_def)
  with ok show ?thesis
    by (simp add: auto_connect_def Let_def load_cred_eq ssid_ok_def pass_ok_def
      broker_ok_def topic_ok_def printf_def emit_def
      msg_loading_def loaded_ssid_def loaded_pass_def loaded_broker_def loaded_topic_def
      config_loaded_def)
qed


text \<open>
  C1. Auto Connect sets \<^verbatim>\<open>config_ready\<close> exactly when the four loads answer
  \<^const>\<open>ESP_OK\<close> and the link attempt on the loaded configuration answers \<^const>\<open>ESP_OK\<close>.
  When a load fails, the branch ends with \<^verbatim>\<open>config_ready\<close> false after printing the
  two lines, and the state differs from the initial one only in the trace and in the buffers
  of the loads that succeeded before the first failure: no driver call, no flag, no flash
  write. A missing key, whichever of the four, is such a failure.
\<close>

theorem auto_connect_completeness_gate:
  "(fst (auto_connect s) \<longleftrightarrow>
      ssid_ok s \<and> pass_ok s \<and> broker_ok s \<and> topic_ok s \<and>
      fst (attempt_wifi_connect (config_loaded s)) = ESP_OK) \<and>
   (\<not> (ssid_ok s \<and> pass_ok s \<and> broker_ok s \<and> topic_ok s) \<longrightarrow>
      auto_connect s =
        (False,
         s\<lparr>ssid := if ssid_ok s then loaded_ssid s else ssid s,
           wifi_pass := if ssid_ok s \<and> pass_ok s then loaded_pass s else wifi_pass s,
           mqtt_broker := if ssid_ok s \<and> pass_ok s \<and> broker_ok s then loaded_broker s
                          else mqtt_broker s,
           trace := trace s @ [Printf msg_loading, Printf msg_no_config]\<rparr>)) \<and>
   (missing ''ssid'' (nvs s) \<or> missing ''pass'' (nvs s) \<or> missing ''broker'' (nvs s) \<or>
    missing ''topic'' (nvs s) \<longrightarrow>
      \<not> fst (auto_connect s) \<and>
      trace (snd (auto_connect s)) = trace s @ [Printf msg_loading, Printf msg_no_config] \<and>
      nvs (snd (auto_connect s)) = nvs s)"
proof -
  have fail: "auto_connect s =
        (False,
         s\<lparr>ssid := if ssid_ok s then loaded_ssid s else ssid s,
           wifi_pass := if ssid_ok s \<and> pass_ok s then loaded_pass s else wifi_pass s,
           mqtt_broker := if ssid_ok s \<and> pass_ok s \<and> broker_ok s then loaded_broker s
                          else mqtt_broker s,
           trace := trace s @ [Printf msg_loading, Printf msg_no_config]\<rparr>)"
    if "\<not> (ssid_ok s \<and> pass_ok s \<and> broker_ok s \<and> topic_ok s)"
  proof (cases "ssid_ok s")
    case False
    then show ?thesis by (simp add: auto_connect_ssid_fails)
  next
    case s1: True
    show ?thesis
    proof (cases "pass_ok s")
      case False
      with s1 show ?thesis by (simp add: auto_connect_pass_fails)
    next
      case s2: True
      show ?thesis
      proof (cases "broker_ok s")
        case False
        with s1 s2 show ?thesis by (simp add: auto_connect_broker_fails)
      next
        case True
        with s1 s2 that show ?thesis by (simp add: auto_connect_topic_fails)
      qed
    qed
  qed
  have gate: "fst (auto_connect s) \<longleftrightarrow>
      ssid_ok s \<and> pass_ok s \<and> broker_ok s \<and> topic_ok s \<and>
      fst (attempt_wifi_connect (config_loaded s)) = ESP_OK"
  proof (cases "ssid_ok s \<and> pass_ok s \<and> broker_ok s \<and> topic_ok s")
    case True
    then show ?thesis by (simp add: auto_connect_all_ok case_prod_beta)
  next
    case False
    with fail show ?thesis by auto
  qed
  have miss: "\<not> (ssid_ok s \<and> pass_ok s \<and> broker_ok s \<and> topic_ok s)"
    if "missing ''ssid'' (nvs s) \<or> missing ''pass'' (nvs s) \<or> missing ''broker'' (nvs s) \<or>
        missing ''topic'' (nvs s)"
    using that missing_load_code [of _ "nvs s"]
    by (auto simp: ssid_ok_def pass_ok_def broker_ok_def topic_ok_def)
  show ?thesis
  proof (intro conjI impI)
    show "fst (auto_connect s) \<longleftrightarrow>
      ssid_ok s \<and> pass_ok s \<and> broker_ok s \<and> topic_ok s \<and>
      fst (attempt_wifi_connect (config_loaded s)) = ESP_OK" by (rule gate)
  next
    assume "\<not> (ssid_ok s \<and> pass_ok s \<and> broker_ok s \<and> topic_ok s)"
    then show "auto_connect s =
        (False,
         s\<lparr>ssid := if ssid_ok s then loaded_ssid s else ssid s,
           wifi_pass := if ssid_ok s \<and> pass_ok s then loaded_pass s else wifi_pass s,
           mqtt_broker := if ssid_ok s \<and> pass_ok s \<and> broker_ok s then loaded_broker s
                          else mqtt_broker s,
           trace := trace s @ [Printf msg_loading, Printf msg_no_config]\<rparr>)"
      by (rule fail)
  next
    assume m: "missing ''ssid'' (nvs s) \<or> missing ''pass'' (nvs s) \<or> missing ''broker'' (nvs s) \<or>
        missing ''topic'' (nvs s)"
    from fail [OF miss [OF m]] show "\<not> fst (auto_connect s)" by simp
    from fail [OF miss [OF m]]
    show "trace (snd (auto_connect s)) = trace s @ [Printf msg_loading, Printf msg_no_config]"
      by simp
    from fail [OF miss [OF m]] show "nvs (snd (auto_connect s)) = nvs s" by simp
  qed
qed

text \<open>A store with the network fields only: the load of the broker fails.\<close>

definition network_only :: nvs_flash where
  "network_only = flash_with [''ssid'' \<mapsto> ''net1'', ''pass'' \<mapsto> ''pw1'']"

theorem auto_connect_completeness_gate_witness:
  "auto_connect (boot_state network_only [] []) =
     (False, (boot_state network_only [] [])
        \<lparr>ssid := ''net1'' @ NUL # replicate 27 NUL, wifi_pass := ''pw1'' @ NUL # replicate 60 NUL,
          trace := [Printf msg_loading, Printf msg_no_config]\<rparr>)"
proof -
  let ?s = "boot_state network_only [] []"
  have ok: "ssid_ok ?s" "pass_ok ?s" "\<not> broker_ok ?s"
    by (simp_all add: ssid_ok_def pass_ok_def broker_ok_def load_code_def load_from_nvs_def
        nvs_open_def nvs_get_str_def boot_state_def network_only_def flash_with_def)
  have ld: "loaded_ssid ?s = ''net1'' @ NUL # replicate 27 NUL" "loaded_pass ?s = ''pw1'' @ NUL # replicate 60 NUL"
    by (simp_all add: loaded_ssid_def loaded_pass_def load_from_nvs_def
        nvs_open_def nvs_get_str_def boot_state_def network_only_def flash_with_def)
  have tr: "trace ?s = []" by (simp add: boot_state_def)
  from auto_connect_completeness_gate [of ?s] ok
  show ?thesis by (simp add: ld tr)
qed

section \<open>Persistence\<close>

text \<open>The \<^verbatim>\<open>nvs_set_str\<close> calls of a trace, in order.\<close>

fun nvs_writes :: "action list \<Rightarrow> (string \<times> string) list" where
  "nvs_writes [] = []"
| "nvs_writes (Nvs_set_str k v # tr) = (k, v) # nvs_writes tr"
| "nvs_writes (a # tr) = nvs_writes tr"

lemma nvs_writes_append [simp]: "nvs_writes (xs @ ys) = nvs_writes xs @ nvs_writes ys"
  by (induction xs rule: nvs_writes.induct) simp_all

definition persists_nothing :: "state \<Rightarrow> state \<Rightarrow> bool" where
  "persists_nothing s t \<longleftrightarrow> nvs t = nvs s \<and> nvs_writes (trace t) = nvs_writes (trace s)"

lemma persists_nothing_refl [simp]: "persists_nothing s s"
  by (simp add: persists_nothing_def)

lemma persists_nothing_trans:
  "persists_nothing s t \<Longrightarrow> persists_nothing t u \<Longrightarrow> persists_nothing s u"
  by (simp add: persists_nothing_def)

definition final_state :: "('a \<times> state) outcome \<Rightarrow> state" where
  "final_state r = (case r of Ret p \<Rightarrow> snd p | Blocked t \<Rightarrow> t)"

definition end_state :: "state outcome \<Rightarrow> state" where
  "end_state r = (case r of Ret t \<Rightarrow> t | Blocked t \<Rightarrow> t)"

lemma final_state_simps [simp]:
  "final_state (Ret (x, t)) = t" "final_state (Blocked t) = t"
  "end_state (Ret t) = t" "end_state (Blocked t) = t"
  by (simp_all add: final_state_def end_state_def)

lemma persists_nothing_prims [simp]:
  "persists_nothing s (printf str s)"
  "persists_nothing s (uart_write_bytes str s)"
  "persists_nothing s (vTaskDelay ms s)"
  "persists_nothing s (deliver s)"
  "persists_nothing s (set_buf c v s)"
  "persists_nothing s (s\<lparr>uart_rx := rx\<rparr>)"
  "persists_nothing s (esp_wifi_stop s)"
  by (simp_all add: persists_nothing_def printf_def uart_write_bytes_def vTaskDelay_def
      esp_wifi_stop_def)

lemma persists_nothing_step:
  "persists_nothing s t \<Longrightarrow> persists_nothing s (printf str t)"
  "persists_nothing s t \<Longrightarrow> persists_nothing s (uart_write_bytes str t)"
  "persists_nothing s t \<Longrightarrow> persists_nothing s (vTaskDelay ms t)"
  "persists_nothing s t \<Longrightarrow> persists_nothing s (deliver t)"
  "persists_nothing s t \<Longrightarrow> persists_nothing s (set_buf c v t)"
  "persists_nothing s t \<Longrightarrow> persists_nothing s (t\<lparr>uart_rx := rx\<rparr>)"
  "persists_nothing s t \<Longrightarrow> persists_nothing s (esp_wifi_stop t)"
  by (simp_all add: persists_nothing_def printf_def uart_write_bytes_def vTaskDelay_def
      esp_wifi_stop_def)

text \<open>
  \<open>console_only b s t\<close>: from s to t nothing was persisted and no buffer other than b
  was written.
\<close>

definition console_only :: "cred \<Rightarrow> state \<Rightarrow> state \<Rightarrow> bool" where
  "console_only b s t \<longleftrightarrow> persists_nothing s t \<and> (\<forall>c. c \<noteq> b \<longrightarrow> get_buf c t = get_buf c s)"

lemma console_only_refl [simp]: "console_only b s s"
  by (simp add: console_only_def)

lemma console_only_trans:
  "console_only b s t \<Longrightarrow> console_only b t u \<Longrightarrow> console_only b s u"
  by (auto simp: console_only_def intro: persists_nothing_trans)

lemma console_only_step:
  "console_only b s t \<Longrightarrow> console_only b s (printf str t)"
  "console_only b s t \<Longrightarrow> console_only b s (uart_write_bytes str t)"
  "console_only b s t \<Longrightarrow> console_only b s (deliver t)"
  "console_only b s t \<Longrightarrow> console_only b s (set_buf b v t)"
  "console_only b s t \<Longrightarrow> console_only b s (t\<lparr>uart_rx := rx\<rparr>)"
  by (simp_all add: console_only_def persists_nothing_step)

lemma read_loop_step:
  assumes lt: "i < size_sub1 len" and rx: "uart_rx s = r # rest"
  shows "\<exists>(t::state) i2. console_only b s t \<and> uart_rx t = rest \<and>
           (read_loop b len masked i s = Ret (i, t) \<or>
            read_loop b len masked i s = read_loop b len masked i2 t)"
proof -
  let ?s1 = "deliver (s\<lparr>uart_rx := rest\<rparr>)"
  have p1: "console_only b s ?s1" by (simp add: console_only_step)
  show ?thesis
  proof (cases r)
    case No_byte
    with lt rx have "read_loop b len masked i s = read_loop b len masked i ?s1"
      by (simp add: read_loop_No_byte)
    with p1 show ?thesis by (intro exI [of _ ?s1] exI [of _ i]) simp
  next
    case (Byte ch)
    consider (eol) "ch = CR \<or> ch = LF"
      | (erase) "ch = BS \<or> ch = DEL" "0 < i"
      | (erase0) "ch = BS \<or> ch = DEL" "i = 0"
      | (print) "printable ch"
      | (other) "\<not> printable ch" "ch \<noteq> CR" "ch \<noteq> LF" "ch \<noteq> BS" "ch \<noteq> DEL"
      by auto
    then show ?thesis
    proof cases
      case eol
      let ?t = "uart_write_bytes nl ?s1"
      from eol lt rx Byte have "read_loop b len masked i s = Ret (i, ?t)"
        by (simp add: read_loop_terminator)
      moreover have "console_only b s ?t" by (simp add: console_only_step)
      ultimately show ?thesis by (intro exI [of _ ?t] exI [of _ i]) simp
    next
      case erase
      let ?t = "uart_write_bytes [BS, CHR '' '', BS] ?s1"
      from erase lt rx Byte have "read_loop b len masked i s = read_loop b len masked (i - 1) ?t"
        by (simp add: read_loop_erase)
      moreover have "console_only b s ?t" by (simp add: console_only_step)
      ultimately show ?thesis by (intro exI [of _ ?t] exI [of _ "i - 1"]) simp
    next
      case erase0
      with lt rx Byte have "read_loop b len masked i s = read_loop b len masked i ?s1"
        by (simp add: read_loop_erase_empty)
      with p1 show ?thesis by (intro exI [of _ ?s1] exI [of _ i]) simp
    next
      case print
      let ?t = "uart_write_bytes (if masked then ''*'' else [ch])
                   (set_buf b ((get_buf b ?s1)[i := ch]) ?s1)"
      from print lt rx Byte have "read_loop b len masked i s = read_loop b len masked (i + 1) ?t"
        by (simp add: read_loop_printable)
      moreover have "console_only b s ?t" by (simp add: console_only_step)
      ultimately show ?thesis by (intro exI [of _ ?t] exI [of _ "i + 1"]) simp
    next
      case other
      with lt rx Byte have "read_loop b len masked i s = read_loop b len masked i ?s1"
        by (simp add: read_loop_discard)
      with p1 show ?thesis by (intro exI [of _ ?s1] exI [of _ i]) simp
    qed
  qed
qed

lemma read_loop_console_only:
  "console_only b s (final_state (read_loop b len masked i s))"
proof (induction "length (uart_rx s)" arbitrary: s i rule: less_induct)
  case less
  show ?case
  proof (cases "i < size_sub1 len")
    case False
    then show ?thesis by (simp add: read_loop_done)
  next
    case True
    show ?thesis
    proof (cases "uart_rx s")
      case Nil
      with True show ?thesis by (simp add: read_loop_empty)
    next
      case (Cons r rest)
      from read_loop_step [OF True Cons] obtain t :: state and i2 where
        t: "console_only b s t" "uart_rx t = rest"
           "read_loop b len masked i s = Ret (i, t) \<or>
            read_loop b len masked i s = read_loop b len masked i2 t"
        by blast
      from t(3) show ?thesis
      proof
        assume "read_loop b len masked i s = Ret (i, t)"
        with t(1) show ?thesis by simp
      next
        assume e: "read_loop b len masked i s = read_loop b len masked i2 t"
        have "console_only b t (final_state (read_loop b len masked i2 t))"
          using less [of t i2] t(2) Cons by simp
        with t(1) show ?thesis unfolding e by (rule console_only_trans)
      qed
    qed
  qed
qed

lemma read_loop_persists_nothing:
  "persists_nothing s (final_state (read_loop b len masked i s))"
  using read_loop_console_only [of b s len masked i] by (simp add: console_only_def)

lemma read_input_console_only:
  "console_only b s (end_state (read_input prompt b len masked s))"
proof -
  let ?s2 = "set_buf b (memset0 (get_buf b (printf prompt s)) len) (printf prompt s)"
  have a: "console_only b s ?s2" by (intro console_only_step) simp
  have c: "console_only b ?s2 (final_state (read_loop b len masked 0 ?s2))"
    by (rule read_loop_console_only)
  show ?thesis
  proof (cases "read_loop b len masked 0 ?s2")
    case (Blocked t)
    with a c have "console_only b s t" by (auto intro: console_only_trans)
    with Blocked show ?thesis by (simp add: read_input_def Let_def)
  next
    case (Ret p)
    obtain j t where p: "p = (j, t)" by (cases p)
    with Ret a c have "console_only b s t" by (auto intro: console_only_trans)
    then have "console_only b s (set_buf b ((get_buf b t)[j := NUL]) t)"
      by (rule console_only_step)
    with Ret p show ?thesis by (simp add: read_input_def Let_def)
  qed
qed

lemma read_input_persists_nothing:
  "persists_nothing s (end_state (read_input prompt b len masked s))"
proof -
  let ?s2 = "set_buf b (memset0 (get_buf b (printf prompt s)) len) (printf prompt s)"
  have a: "persists_nothing s ?s2" by (simp add: persists_nothing_step)
  have b: "persists_nothing ?s2 (final_state (read_loop b len masked 0 ?s2))"
    by (rule read_loop_persists_nothing)
  show ?thesis
  proof (cases "read_loop b len masked 0 ?s2")
    case (Blocked t)
    with a b show ?thesis
      by (auto simp: read_input_def Let_def intro: persists_nothing_trans)
  next
    case (Ret p)
    obtain j t where "p = (j, t)" by (cases p)
    with Ret a b have "persists_nothing s t" by (auto intro: persists_nothing_trans)
    then have "persists_nothing s (set_buf b ((get_buf b t)[j := NUL]) t)"
      by (rule persists_nothing_step)
    with Ret \<open>p = (j, t)\<close> show ?thesis by (simp add: read_input_def Let_def)
  qed
qed

lemma wait_connected_persists_nothing: "persists_nothing s (snd (wait_connected n s))"
proof (induction n s rule: wait_connected.induct)
  case (1 attempts s)
  show ?case
  proof (cases "\<not> wifi_connected s \<and> attempts < 80")
    case True
    then have e: "wait_connected attempts s = wait_connected (attempts + 1) (vTaskDelay 100 s)"
      by (subst wait_connected.simps) auto
    have "persists_nothing s (vTaskDelay 100 s)" by simp
    then show ?thesis unfolding e using "1.IH" [OF True]
      by (rule persists_nothing_trans)
  next
    case False
    then have "wait_connected attempts s = (attempts, s)"
      by (subst wait_connected.simps) auto
    then show ?thesis by simp
  qed
qed

lemma link_requested_persists_nothing: "persists_nothing s (link_requested s)"
  by (simp add: persists_nothing_def link_requested_def esp_wifi_set_mode_def
      esp_wifi_set_config_def esp_wifi_start_def esp_wifi_connect_def)

lemma attempt_wifi_connect_persists_nothing:
  "persists_nothing s (snd (attempt_wifi_connect s))"
  unfolding attempt_wifi_connect_eq snd_conv
  using link_requested_persists_nothing wait_connected_persists_nothing
  by (rule persists_nothing_trans)


lemma save_to_nvs_writes:
  "nvs_writes (trace (snd (save_to_nvs key val s)))
     = nvs_writes (trace s) @ (if open_fault (nvs s) = ESP_OK then [(key, cstr val)] else [])"
  by (simp add: save_to_nvs_def nvs_open_def case_prod_beta split: option.splits)

lemma save_to_nvs_open_fault [simp]:
  "open_fault (nvs (snd (save_to_nvs key val s))) = open_fault (nvs s)"
  by (simp add: save_to_nvs_def nvs_open_def nvs_set_str_def case_prod_beta split: option.splits)

lemma save_to_nvs_frame [simp]:
  "ssid (snd (save_to_nvs key val s)) = ssid s"
  "wifi_pass (snd (save_to_nvs key val s)) = wifi_pass s"
  "mqtt_broker (snd (save_to_nvs key val s)) = mqtt_broker s"
  "mqtt_topic (snd (save_to_nvs key val s)) = mqtt_topic s"
  "wifi_connected (snd (save_to_nvs key val s)) = wifi_connected s"
  by (simp_all add: save_to_nvs_def case_prod_beta)

text \<open>What the wizard does once the link attempt has succeeded in state t.\<close>

definition save_network :: "state \<Rightarrow> state" where
  "save_network t =
     (let s4 = printf ''Wi-Fi Connected! Saving to NVS...\<newline>'' t;
          s5 = snd (save_to_nvs ''ssid'' (ssid s4) s4);
          s6 = snd (save_to_nvs ''pass'' (wifi_pass s5) s5)
      in s6)"

lemma attempt_ok_connected:
  "fst (attempt_wifi_connect s) = ESP_OK \<longleftrightarrow> wifi_connected (snd (attempt_wifi_connect s))"
  by (simp add: attempt_wifi_connect_eq)

text \<open>
  \<open>network_saved s t\<close>: from s nothing was persisted up to a link attempt that answered
  \<^const>\<open>ESP_OK\<close>, and t is the state right after the two saves that follow it.
\<close>

definition network_saved :: "state \<Rightarrow> state \<Rightarrow> bool" where
  "network_saved s t \<longleftrightarrow>
     (\<exists>x. persists_nothing s x \<and> fst (attempt_wifi_connect x) = ESP_OK \<and>
          t = save_network (snd (attempt_wifi_connect x)))"

lemma network_saved_from:
  "persists_nothing s u \<Longrightarrow> network_saved u t \<Longrightarrow> network_saved s t"
  by (auto simp: network_saved_def intro: persists_nothing_trans)

lemma wifi_entry_result:
  "(\<forall>t. wifi_entry s = Blocked t \<longrightarrow> persists_nothing s t) \<and>
   (\<forall>s'. wifi_entry s = Ret s' \<longrightarrow> network_saved s s')"
proof (induction s rule: wifi_entry.induct)
  case (1 s)
  let ?r1 = "read_input ''Enter SSID: '' Ssid 32 False s"
  have f1: "persists_nothing s (end_state ?r1)" by (rule read_input_persists_nothing)
  show ?case
  proof (cases ?r1)
    case (Blocked t)
    then have "wifi_entry s = Blocked t" by (subst wifi_entry.simps) simp
    with f1 Blocked show ?thesis by simp
  next
    case r1: (Ret s1)
    let ?r2 = "read_input ''Enter Password: '' Wifi_pass 64 True s1"
    have f2: "persists_nothing s1 (end_state ?r2)" by (rule read_input_persists_nothing)
    from f1 r1 have p1: "persists_nothing s s1" by simp
    show ?thesis
    proof (cases ?r2)
      case (Blocked t)
      with r1 have "wifi_entry s = Blocked t" by (subst wifi_entry.simps) simp
      moreover from p1 f2 Blocked have "persists_nothing s t"
        by (auto intro: persists_nothing_trans)
      ultimately show ?thesis by simp
    next
      case r2: (Ret s2)
      let ?x = "printf ''Attempting connection...\<newline>'' s2"
      let ?a = "attempt_wifi_connect ?x"
      from p1 f2 r2 have p2: "persists_nothing s s2" by (auto intro: persists_nothing_trans)
      then have px: "persists_nothing s ?x"
        by (rule persists_nothing_step)
      then have p3: "persists_nothing s (snd ?a)"
        using attempt_wifi_connect_persists_nothing by (rule persists_nothing_trans)
      show ?thesis
      proof (cases "fst ?a = ESP_OK")
        case True
        with r1 r2 have "wifi_entry s = Ret (save_network (snd ?a))"
          by (subst wifi_entry.simps) (simp add: case_prod_beta Let_def save_network_def)
        moreover from True px have "network_saved s (save_network (snd ?a))"
          unfolding network_saved_def by blast
        ultimately show ?thesis by simp
      next
        case False
        let ?n = "esp_wifi_stop (printf ''Connection Failed. Try again.\<newline>'' (snd ?a))"
        from False r1 r2 have e: "wifi_entry s = wifi_entry ?n"
          by (subst wifi_entry.simps) (simp add: case_prod_beta)
        have IH: "(\<forall>t. wifi_entry ?n = Blocked t \<longrightarrow> persists_nothing ?n t) \<and>
                  (\<forall>s'. wifi_entry ?n = Ret s' \<longrightarrow> network_saved ?n s')"
          using False by (intro "1.IH" [OF r1 r2 prod.collapse])
        have pn: "persists_nothing s ?n"
          using p3 by (intro persists_nothing_step)
        show ?thesis unfolding e using IH pn
          by (blast intro: persists_nothing_trans network_saved_from)
      qed
    qed
  qed
qed

text \<open>One failed round of the Wi-Fi entry: nothing persisted, and the loop goes on.\<close>

lemma wifi_entry_failed_round:
  assumes "read_input ''Enter SSID: '' Ssid 32 False s = Ret s1"
    and "read_input ''Enter Password: '' Wifi_pass 64 True s1 = Ret s2"
    and "fst (attempt_wifi_connect (printf ''Attempting connection...\<newline>'' s2)) \<noteq> ESP_OK"
  shows "wifi_entry s =
           wifi_entry (esp_wifi_stop (printf ''Connection Failed. Try again.\<newline>''
             (snd (attempt_wifi_connect (printf ''Attempting connection...\<newline>'' s2)))))"
    and "persists_nothing s (esp_wifi_stop (printf ''Connection Failed. Try again.\<newline>''
             (snd (attempt_wifi_connect (printf ''Attempting connection...\<newline>'' s2)))))"
proof -
  let ?x = "printf ''Attempting connection...\<newline>'' s2"
  show "wifi_entry s = wifi_entry (esp_wifi_stop (printf ''Connection Failed. Try again.\<newline>''
             (snd (attempt_wifi_connect ?x))))"
    using assms by (subst wifi_entry.simps) (simp add: case_prod_beta)
  have "persists_nothing s s1"
    using read_input_persists_nothing [of s "''Enter SSID: ''" Ssid 32 False] assms(1) by simp
  moreover have "persists_nothing s1 s2"
    using read_input_persists_nothing [of s1 "''Enter Password: ''" Wifi_pass 64 True] assms(2)
    by simp
  ultimately have "persists_nothing s ?x"
    by (auto intro: persists_nothing_trans persists_nothing_step)
  then have "persists_nothing s (snd (attempt_wifi_connect ?x))"
    using attempt_wifi_connect_persists_nothing by (rule persists_nothing_trans)
  then show "persists_nothing s (esp_wifi_stop (printf ''Connection Failed. Try again.\<newline>''
             (snd (attempt_wifi_connect ?x))))"
    by (intro persists_nothing_step)
qed

definition save_broker_topic :: "state \<Rightarrow> state" where
  "save_broker_topic s3 =
     (let s4 = snd (save_to_nvs ''broker'' (mqtt_broker s3) s3);
          s5 = snd (save_to_nvs ''topic'' (mqtt_topic s4) s4)
      in s5)"

lemma mqtt_entry_result:
  "(\<forall>t. mqtt_entry s = Blocked t \<longrightarrow> persists_nothing s t) \<and>
   (\<forall>s'. mqtt_entry s = Ret s' \<longrightarrow> (\<exists>u. persists_nothing s u \<and> s' = save_broker_topic u))"
proof -
  let ?r1 = "read_input ''Enter MQTT Broker IP: '' Mqtt_broker 64 False s"
  have f1: "persists_nothing s (end_state ?r1)" by (rule read_input_persists_nothing)
  show ?thesis
  proof (cases ?r1)
    case (Blocked t)
    with f1 show ?thesis by (simp add: mqtt_entry_def)
  next
    case r1: (Ret s2)
    let ?r2 = "read_input ''Enter MQTT Topic: '' Mqtt_topic 64 False s2"
    have f2: "persists_nothing s2 (end_state ?r2)" by (rule read_input_persists_nothing)
    from f1 r1 have p1: "persists_nothing s s2" by simp
    show ?thesis
    proof (cases ?r2)
      case (Blocked t)
      with p1 f2 have "persists_nothing s t" by (auto intro: persists_nothing_trans)
      with r1 Blocked show ?thesis by (simp add: mqtt_entry_def)
    next
      case (Ret s3)
      with p1 f2 have "persists_nothing s s3" by (auto intro: persists_nothing_trans)
      moreover from r1 Ret have "mqtt_entry s = Ret (save_broker_topic s3)"
        by (simp add: mqtt_entry_def save_broker_topic_def)
      ultimately show ?thesis by auto
    qed
  qed
qed

lemma save_network_writes:
  "nvs_writes (trace (save_network t))
     = nvs_writes (trace t) @
       (if open_fault (nvs t) = ESP_OK
        then [(''ssid'', cstr (ssid t)), (''pass'', cstr (wifi_pass t))] else [])"
  by (simp add: save_network_def Let_def save_to_nvs_writes printf_def)

lemma save_broker_topic_writes:
  "nvs_writes (trace (save_broker_topic t))
     = nvs_writes (trace t) @
       (if open_fault (nvs t) = ESP_OK
        then [(''broker'', cstr (mqtt_broker t)), (''topic'', cstr (mqtt_topic t))] else [])"
  by (simp add: save_broker_topic_def Let_def save_to_nvs_writes)


text \<open>
  \<open>config_saved s s'\<close>: the network fields were saved after a successful attempt, nothing
  was persisted until the broker and topic had been entered, and s' is the state right
  after their two saves.
\<close>

definition config_saved :: "state \<Rightarrow> state \<Rightarrow> bool" where
  "config_saved s s' \<longleftrightarrow>
     (\<exists>t u. network_saved s t \<and> persists_nothing t u \<and> s' = save_broker_topic u)"

definition network_only_saved :: "state \<Rightarrow> state \<Rightarrow> bool" where
  "network_only_saved s t' \<longleftrightarrow> (\<exists>t. network_saved s t \<and> persists_nothing t t')"

lemma config_saved_from: "persists_nothing s u \<Longrightarrow> config_saved u t \<Longrightarrow> config_saved s t"
  by (auto simp: config_saved_def intro: network_saved_from)

lemma network_only_saved_from:
  "persists_nothing s u \<Longrightarrow> network_only_saved u t \<Longrightarrow> network_only_saved s t"
  by (auto simp: network_only_saved_def intro: network_saved_from)

lemma wizard_result:
  "(\<forall>t. wizard s = Blocked t \<longrightarrow> persists_nothing s t \<or> network_only_saved s t) \<and>
   (\<forall>s'. wizard s = Ret s' \<longrightarrow> config_saved s s')"
proof -
  let ?s0 = "printf ''\<newline>--- STARTING WIZARD ---\<newline>'' s"
  have p0: "persists_nothing s ?s0" by simp
  note w = wifi_entry_result [of ?s0]
  show ?thesis
  proof (cases "wifi_entry ?s0")
    case (Blocked t)
    with w p0 have "persists_nothing s t" by (blast intro: persists_nothing_trans)
    with Blocked show ?thesis by (simp add: wizard_def)
  next
    case (Ret s1)
    with w p0 have ns: "network_saved s s1" by (blast intro: network_saved_from)
    note m = mqtt_entry_result [of s1]
    from Ret have e: "wizard s = mqtt_entry s1" by (simp add: wizard_def)
    show ?thesis unfolding e using m ns
      by (auto simp: config_saved_def network_only_saved_def)
  qed
qed

lemma wait_choice_persists_nothing: "persists_nothing s (final_state (wait_choice s))"
proof (induction s rule: wait_choice.induct)
  case (1 s)
  show ?case
  proof (cases "uart_read_bytes s")
    case None
    then show ?thesis by (subst wait_choice.simps) simp
  next
    case (Some p)
    obtain r s1 where p: "p = (r, s1)" by (cases p)
    have p1: "persists_nothing s s1"
      using Some p by (auto simp: uart_read_bytes_def persists_nothing_def split: list.splits)
    show ?thesis
    proof (cases r)
      case No_byte
      with Some p have e: "wait_choice s = wait_choice (vTaskDelay 50 s1)"
        by (subst wait_choice.simps) simp
      from p1 have "persists_nothing s (vTaskDelay 50 s1)" by (rule persists_nothing_step)
      then show ?thesis unfolding e
        using "1.IH" [OF Some [unfolded p No_byte] refl refl]
        by (rule persists_nothing_trans)
    next
      case (Byte ch)
      with Some p have "wait_choice s = Ret (ch, s1)"
        by (subst wait_choice.simps) simp
      with p1 show ?thesis by simp
    qed
  qed
qed

lemma print_menu_persists_nothing: "persists_nothing s (print_menu s)"
  by (simp add: print_menu_def persists_nothing_def printf_def)

lemma load_cred_persists_nothing: "persists_nothing s (snd (load_cred key c s))"
  by (simp add: load_cred_eq)

lemma auto_connect_persists_nothing: "persists_nothing s (snd (auto_connect s))"
proof (cases "ssid_ok s \<and> pass_ok s \<and> broker_ok s \<and> topic_ok s")
  case True
  have "persists_nothing s (config_loaded s)"
    by (simp add: persists_nothing_def config_loaded_def)
  then have "persists_nothing s (snd (attempt_wifi_connect (config_loaded s)))"
    using attempt_wifi_connect_persists_nothing by (rule persists_nothing_trans)
  with True show ?thesis
    by (simp add: auto_connect_all_ok case_prod_beta persists_nothing_step)
next
  case False
  then consider "\<not> ssid_ok s" | "ssid_ok s" "\<not> pass_ok s"
    | "ssid_ok s" "pass_ok s" "\<not> broker_ok s"
    | "ssid_ok s" "pass_ok s" "broker_ok s" "\<not> topic_ok s"
    by blast
  then show ?thesis
    by cases
      (simp_all add: auto_connect_ssid_fails auto_connect_pass_fails auto_connect_broker_fails
        auto_connect_topic_fails persists_nothing_def)
qed

lemma menu_iteration_result:
  "(\<forall>s1. menu_iteration s = Ret (False, s1) \<longrightarrow> persists_nothing s s1) \<and>
   (\<forall>s'. menu_iteration s = Ret (True, s') \<longrightarrow> persists_nothing s s' \<or> config_saved s s') \<and>
   (\<forall>t. menu_iteration s = Blocked t \<longrightarrow> persists_nothing s t \<or> network_only_saved s t)"
proof -
  have pw: "persists_nothing s (final_state (wait_choice (print_menu s)))"
    using print_menu_persists_nothing wait_choice_persists_nothing
    by (rule persists_nothing_trans)
  show ?thesis
  proof (cases "wait_choice (print_menu s)")
    case (Blocked t)
    with pw show ?thesis by (simp add: menu_iteration_def)
  next
    case (Ret p)
    obtain choice s1 where p: "p = (choice, s1)" by (cases p)
    let ?s2 = "printf [choice, LF] s1"
    from pw Ret p have p2: "persists_nothing s ?s2" by (simp add: persists_nothing_step)
    consider (auto) "choice = CHR ''O'' \<or> choice = CHR ''o''"
      | (wizard) "choice = CHR ''N'' \<or> choice = CHR ''n''"
      | (invalid) "\<not> (choice = CHR ''O'' \<or> choice = CHR ''o'')"
                  "\<not> (choice = CHR ''N'' \<or> choice = CHR ''n'')"
      by blast
    then show ?thesis
    proof cases
      case auto
      with Ret p have e: "menu_iteration s = Ret (auto_connect ?s2)"
        by (simp add: menu_iteration_def)
      have "persists_nothing s (snd (auto_connect ?s2))"
        using p2 auto_connect_persists_nothing by (rule persists_nothing_trans)
      then show ?thesis unfolding e by auto
    next
      case wizard
      then have no: "\<not> (choice = CHR ''O'' \<or> choice = CHR ''o'')" by auto
      with wizard Ret p have e: "menu_iteration s =
          (case wizard ?s2 of Blocked t \<Rightarrow> Blocked t | Ret s3 \<Rightarrow> Ret (True, s3))"
        by (simp add: menu_iteration_def)
      show ?thesis unfolding e using wizard_result [of ?s2] p2
        by (auto split: outcome.splits intro: config_saved_from network_only_saved_from
            persists_nothing_trans)
    next
      case invalid
      with Ret p have e: "menu_iteration s = Ret (False, printf ''Invalid selection.\<newline>'' ?s2)"
        by (simp add: menu_iteration_def)
      from p2 have "persists_nothing s (printf ''Invalid selection.\<newline>'' ?s2)"
        by (rule persists_nothing_step)
      then show ?thesis unfolding e by simp
    qed
  qed
qed

lemma boot_menu_result:
  "(\<forall>s'. boot_menu s = Ret s' \<longrightarrow> persists_nothing s s' \<or> config_saved s s') \<and>
   (\<forall>t. boot_menu s = Blocked t \<longrightarrow> persists_nothing s t \<or> network_only_saved s t)"
proof (induction s rule: boot_menu.induct)
  case (1 s)
  note m = menu_iteration_result [of s]
  show ?case
  proof (cases "menu_iteration s")
    case (Blocked t)
    then have "boot_menu s = Blocked t" by (subst boot_menu.simps) simp
    with m Blocked show ?thesis by simp
  next
    case (Ret p)
    obtain config_ready s1 where p: "p = (config_ready, s1)" by (cases p)
    show ?thesis
    proof (cases config_ready)
      case True
      with Ret p have "boot_menu s = Ret s1" by (subst boot_menu.simps) simp
      with m Ret p True show ?thesis by simp
    next
      case False
      with Ret p have e: "boot_menu s = boot_menu s1" by (subst boot_menu.simps) simp
      from m Ret p False have p1: "persists_nothing s s1" by simp
      from "1.IH" [OF Ret [unfolded p] refl] False
      have IH: "(\<forall>s'. boot_menu s1 = Ret s' \<longrightarrow> persists_nothing s1 s' \<or> config_saved s1 s') \<and>
        (\<forall>t. boot_menu s1 = Blocked t \<longrightarrow> persists_nothing s1 t \<or> network_only_saved s1 t)"
        by simp
      show ?thesis unfolding e using IH p1
        by (blast intro: persists_nothing_trans config_saved_from network_only_saved_from)
    qed
  qed
qed

lemma start_mqtt_persists_nothing: "persists_nothing s (start_mqtt s)"
  by (simp add: start_mqtt_def persists_nothing_def Let_def)

lemma loop_iteration_persists_nothing: "persists_nothing s (loop_iteration s)"
  by (cases "wifi_connected s"; cases "mqtt_connected s")
     (simp_all add: loop_iteration_def loop_body_publish loop_body_reconnect loop_body_idle
        persists_nothing_def vTaskDelay_def)

lemma publish_loop_persists_nothing: "persists_nothing s (publish_loop n s)"
proof (induction n arbitrary: s)
  case 0
  show ?case by simp
next
  case (Suc n)
  from loop_iteration_persists_nothing Suc [of "loop_iteration s"] show ?case
    by (auto intro: persists_nothing_trans)
qed


lemma cstr_one_char:
  assumes "c \<noteq> NUL" and "2 \<le> n"
  shows "cstr ((replicate n NUL)[0 := c, Suc 0 := NUL]) = [c]"
proof -
  from assms(2) obtain m where "n = Suc (Suc m)"
    by (metis Suc_le_D numeral_2_eq_2 Suc_le_mono)
  with assms(1) show ?thesis by (simp add: cstr_def)
qed

lemma cstr_no_char: "0 < n \<Longrightarrow> cstr ((replicate n NUL)[0 := NUL]) = []"
  by (cases n) (simp_all add: cstr_def)

lemmas run_simps =
  boot_menu.simps menu_iteration_def wait_choice.simps uart_read_bytes_def deliver_def
  run_handlers_def dispatch_def wifi_event_handler_def mqtt_event_handler_def handler_emit_def
  print_menu_def printf_def uart_write_bytes_def emit_def wizard_def wifi_entry.simps
  mqtt_entry_def read_input_def read_loop.simps memset0_def size_sub1_def
  attempt_wifi_connect_def wait_connected.simps vTaskDelay_def esp_wifi_set_mode_def
  esp_wifi_set_config_def esp_wifi_start_def esp_wifi_connect_def esp_wifi_stop_def
  save_to_nvs_def nvs_open_def nvs_set_str_def nvs_commit_def Let_def cstr_one_char cstr_no_char
  boot_state_def flash_with_def nl_def

definition wizard_session :: state where
  "wizard_session =
     boot_state (flash_with Map.empty)
       [Byte CHR ''N'', Byte CHR ''a'', Byte CR, Byte CHR ''b'', Byte CR,
        Byte CHR ''c'', Byte CR, Byte CHR ''d'', Byte CR]
       [[], [], [], [], [], [IP_EVENT IP_EVENT_STA_GOT_IP]]"

lemma wizard_session_run:
  "\<exists>s'. boot_menu wizard_session = Ret s' \<and>
         nvs_writes (trace s') = [(''ssid'', ''a''), (''pass'', ''b''), (''broker'', ''c''), (''topic'', ''d'')]"
  by (simp add: run_simps wizard_session_def)

text \<open>Two rounds of the Wi-Fi entry with a driver that never gets an address.\<close>

definition failing_session :: state where
  "failing_session =
     boot_state (flash_with Map.empty)
       [Byte CHR ''N'', Byte CHR ''a'', Byte CR, Byte CHR ''b'', Byte CR,
        Byte CHR ''a'', Byte CR, Byte CHR ''b'', Byte CR]
       []"

lemma attempt_no_events:
  assumes "events s = []"
  shows "attempt_wifi_connect s
           = (ESP_FAIL, (link_requested s)\<lparr>trace := trace (link_requested s) @ replicate 80 (Task_delay 100)\<rparr>)"
proof -
  have ev: "events (link_requested s) = []"
    using assms by (simp add: link_requested_def esp_wifi_set_mode_def esp_wifi_set_config_def
        esp_wifi_start_def esp_wifi_connect_def)
  have nc: "\<not> wifi_connected (polls k (link_requested s))" for k
    by (simp add: polls_no_events [OF ev] link_requested_effect)
  from attempt_wifi_connect_polls [of s] obtain k where
    k: "snd (attempt_wifi_connect s) = polls k (link_requested s)"
       "fst (attempt_wifi_connect s) = ESP_OK \<longleftrightarrow> wifi_connected (polls k (link_requested s))"
       "fst (attempt_wifi_connect s) \<noteq> ESP_OK \<longrightarrow> fst (attempt_wifi_connect s) = ESP_FAIL \<and> k = 80"
    by blast
  from k(2) nc have "fst (attempt_wifi_connect s) \<noteq> ESP_OK" by simp
  with k(3) have "fst (attempt_wifi_connect s) = ESP_FAIL" "k = 80" by simp_all
  with k(1) show ?thesis
    by (simp add: prod_eq_iff polls_no_events [OF ev])
qed

lemma nvs_writes_delays [simp]: "nvs_writes (replicate n (Task_delay ms)) = []"
  by (induction n) simp_all

lemmas run_simps_no_events =
  boot_menu.simps menu_iteration_def wait_choice.simps uart_read_bytes_def deliver_def
  print_menu_def printf_def uart_write_bytes_def emit_def wizard_def wifi_entry.simps
  mqtt_entry_def read_input_def read_loop.simps memset0_def size_sub1_def
  attempt_no_events link_requested_def esp_wifi_set_mode_def
  esp_wifi_set_config_def esp_wifi_start_def esp_wifi_connect_def esp_wifi_stop_def
  Let_def boot_state_def flash_with_def nl_def

lemma failing_session_run:
  "\<exists>t. boot_menu failing_session = Blocked t \<and> nvs t = nvs failing_session \<and>
        nvs_writes (trace t) = [] \<and>
        length (filter (\<lambda>a. a = Wifi_stop) (trace t)) = 2 \<and>
        length (filter (\<lambda>a. a = Task_delay 100) (trace t)) = 160"
  by (simp add: run_simps_no_events failing_session_def)

lemma keys_of_writes:
  "map fst (if c then [(k1, v1), (k2, v2)] else []) \<in> {[], [k1, k2]}"
  by simp

lemma network_saved_writes:
  assumes "network_saved s t"
  shows "open_fault (nvs t) = open_fault (nvs s) \<and>
         (\<exists>W. nvs_writes (trace t) = nvs_writes (trace s) @ W \<and>
              map fst W = (if open_fault (nvs s) = ESP_OK then [''ssid'', ''pass''] else []))"
proof -
  from assms obtain x where x: "persists_nothing s x" "t = save_network (snd (attempt_wifi_connect x))"
    by (auto simp: network_saved_def)
  let ?y = "snd (attempt_wifi_connect x)"
  have "persists_nothing s ?y"
    using x(1) attempt_wifi_connect_persists_nothing by (rule persists_nothing_trans)
  then have y: "nvs ?y = nvs s" "nvs_writes (trace ?y) = nvs_writes (trace s)"
    by (simp_all add: persists_nothing_def)
  have "open_fault (nvs t) = open_fault (nvs s)"
    by (simp add: x(2) save_network_def Let_def y printf_def)
  moreover have "nvs_writes (trace t) = nvs_writes (trace s) @
       (if open_fault (nvs s) = ESP_OK
        then [(''ssid'', cstr (ssid ?y)), (''pass'', cstr (wifi_pass ?y))] else [])"
    by (simp add: x(2) save_network_writes y)
  ultimately show ?thesis by auto
qed

lemma boot_menu_writes:
  "\<exists>W. nvs_writes (trace (end_state (boot_menu s))) = nvs_writes (trace s) @ W \<and>
       map fst W \<in> {[], [''ssid'', ''pass''], [''ssid'', ''pass'', ''broker'', ''topic'']}"
proof -
  note r = boot_menu_result [of s]
  let ?e = "end_state (boot_menu s)"
  have "persists_nothing s ?e \<or> network_only_saved s ?e \<or> config_saved s ?e"
  proof (cases "boot_menu s")
    case (Ret s')
    with r have "persists_nothing s s' \<or> config_saved s s'" by blast
    with Ret show ?thesis by auto
  next
    case (Blocked t)
    with r have "persists_nothing s t \<or> network_only_saved s t" by blast
    with Blocked show ?thesis by auto
  qed
  then consider (nothing) "persists_nothing s ?e"
    | (network) "network_only_saved s ?e"
    | (config) "config_saved s ?e"
    by blast
  then show ?thesis
  proof cases
    case nothing
    then have "nvs_writes (trace ?e) = nvs_writes (trace s) @ []"
      by (simp add: persists_nothing_def)
    then show ?thesis by (intro exI [of _ "[]"] conjI) simp_all
  next
    case network
    then obtain t where t: "network_saved s t" "persists_nothing t ?e"
      unfolding network_only_saved_def by blast
    from network_saved_writes [OF t(1)] obtain W where
      W: "nvs_writes (trace t) = nvs_writes (trace s) @ W"
         "map fst W = (if open_fault (nvs s) = ESP_OK then [''ssid'', ''pass''] else [])"
      by blast
    from t(2) have "nvs_writes (trace ?e) = nvs_writes (trace t)"
      by (simp add: persists_nothing_def)
    with W(1) have "nvs_writes (trace ?e) = nvs_writes (trace s) @ W" by simp
    moreover from W(2) have
      "map fst W \<in> {[], [''ssid'', ''pass''], [''ssid'', ''pass'', ''broker'', ''topic'']}"
      by (cases "open_fault (nvs s) = ESP_OK") simp_all
    ultimately show ?thesis by (intro exI [of _ W] conjI)
  next
    case config
    then obtain t u where t: "network_saved s t" "persists_nothing t u" "?e = save_broker_topic u"
      unfolding config_saved_def by blast
    from network_saved_writes [OF t(1)] obtain W where
      W: "open_fault (nvs t) = open_fault (nvs s)"
         "nvs_writes (trace t) = nvs_writes (trace s) @ W"
         "map fst W = (if open_fault (nvs s) = ESP_OK then [''ssid'', ''pass''] else [])"
      by blast
    from t(2) have u: "nvs u = nvs t" "nvs_writes (trace u) = nvs_writes (trace t)"
      by (simp_all add: persists_nothing_def)
    let ?B = "if open_fault (nvs s) = ESP_OK
              then [(''broker'', cstr (mqtt_broker u)), (''topic'', cstr (mqtt_topic u))] else []"
    have "nvs_writes (trace (save_broker_topic u)) = nvs_writes (trace s) @ (W @ ?B)"
      by (simp only: save_broker_topic_writes u W append_assoc)
    then have "nvs_writes (trace ?e) = nvs_writes (trace s) @ (W @ ?B)"
      by (simp only: t(3))
    moreover have "map fst (W @ ?B) \<in> {[], [''ssid'', ''pass''], [''ssid'', ''pass'', ''broker'', ''topic'']}"
      using W(3) by (cases "open_fault (nvs s) = ESP_OK") simp_all
    ultimately show ?thesis by (intro exI [of _ "W @ ?B"] conjI)
  qed
qed

lemma app_main_after_boot_menu:
  "persists_nothing (end_state (boot_menu s)) (end_state (app_main n s))"
proof (cases "boot_menu s")
  case (Blocked t)
  then show ?thesis by (simp add: app_main_def)
next
  case (Ret s1)
  let ?s2 = "start_mqtt s1"
  let ?s3 = "printf ''\<newline>--- SYSTEM RUNNING ---\<newline>'' ?s2"
  let ?s4 = "esp_log LOG_I (''Starting loop. Sending data to topic: '' @ cstr (mqtt_topic ?s3)) ?s3"
  have "persists_nothing s1 ?s2" by (rule start_mqtt_persists_nothing)
  moreover have "persists_nothing ?s2 ?s3" by simp
  moreover have "persists_nothing ?s3 ?s4" by (simp add: persists_nothing_def esp_log_def)
  moreover have "persists_nothing ?s4 (publish_loop n ?s4)" by (rule publish_loop_persists_nothing)
  ultimately have "persists_nothing s1 (publish_loop n ?s4)"
    by (blast intro: persists_nothing_trans)
  with Ret show ?thesis by (simp add: app_main_def Let_def)
qed

lemma app_main_writes:
  "\<exists>W. nvs_writes (trace (end_state (app_main n s))) = nvs_writes (trace s) @ W \<and>
       map fst W \<in> {[], [''ssid'', ''pass''], [''ssid'', ''pass'', ''broker'', ''topic'']}"
proof -
  from boot_menu_writes [of s] obtain W where
    W: "nvs_writes (trace (end_state (boot_menu s))) = nvs_writes (trace s) @ W"
       "map fst W \<in> {[], [''ssid'', ''pass''], [''ssid'', ''pass'', ''broker'', ''topic'']}"
    by (elim exE conjE)
  from app_main_after_boot_menu [of s n]
  have "nvs_writes (trace (end_state (app_main n s))) = nvs_writes (trace (end_state (boot_menu s)))"
    by (simp only: persists_nothing_def)
  with W(1) have "nvs_writes (trace (end_state (app_main n s))) = nvs_writes (trace s) @ W"
    by (simp only:)
  with W(2) show ?thesis by (intro exI [of _ W] conjI)
qed

text \<open>
  C4. Nothing but the two save points persists configuration. The Wi-Fi entry loop of the
  wizard either never returns, having persisted nothing however many attempts failed, or
  returns right after the two saves that follow a link attempt answering \<^const>\<open>ESP_OK\<close>;
  a failed round persists nothing and re-enters the loop. The MQTT entry persists nothing
  until both values are entered and then saves both, whatever they are. The Auto Connect
  branch, \<open>start_mqtt\<close> and the publish loop persist nothing. So at the end of the boot menu,
  returned or waiting for ever, the \<^verbatim>\<open>nvs_set_str\<close> calls made are none, or those of the
  network fields, or those of the four fields, in this order; and the same holds of the whole
  main task after any number of iterations of its loop.
\<close>

theorem persistence_points:
  "(\<forall>t. wifi_entry s = Blocked t \<longrightarrow> persists_nothing s t) \<and>
   (\<forall>s'. wifi_entry s = Ret s' \<longrightarrow> network_saved s s') \<and>
   (\<forall>s1 s2. read_input ''Enter SSID: '' Ssid 32 False s = Ret s1 \<and>
            read_input ''Enter Password: '' Wifi_pass 64 True s1 = Ret s2 \<and>
            fst (attempt_wifi_connect (printf ''Attempting connection...\<newline>'' s2)) \<noteq> ESP_OK \<longrightarrow>
      (\<exists>n. wifi_entry s = wifi_entry n \<and> persists_nothing s n)) \<and>
   (\<forall>t. mqtt_entry s = Blocked t \<longrightarrow> persists_nothing s t) \<and>
   (\<forall>s'. mqtt_entry s = Ret s' \<longrightarrow> (\<exists>u. persists_nothing s u \<and> s' = save_broker_topic u)) \<and>
   nvs_writes (trace (save_network s))
     = nvs_writes (trace s) @
       (if open_fault (nvs s) = ESP_OK
        then [(''ssid'', cstr (ssid s)), (''pass'', cstr (wifi_pass s))] else []) \<and>
   nvs_writes (trace (save_broker_topic s))
     = nvs_writes (trace s) @
       (if open_fault (nvs s) = ESP_OK
        then [(''broker'', cstr (mqtt_broker s)), (''topic'', cstr (mqtt_topic s))] else []) \<and>
   persists_nothing s (snd (auto_connect s)) \<and>
   (\<forall>s'. boot_menu s = Ret s' \<longrightarrow> persists_nothing s s' \<or> config_saved s s') \<and>
   (\<forall>t. boot_menu s = Blocked t \<longrightarrow> persists_nothing s t \<or> network_only_saved s t) \<and>
   (\<exists>W. nvs_writes (trace (end_state (boot_menu s))) = nvs_writes (trace s) @ W \<and>
        map fst W \<in> {[], [''ssid'', ''pass''], [''ssid'', ''pass'', ''broker'', ''topic'']}) \<and>
   persists_nothing s (start_mqtt s) \<and>
   persists_nothing s (publish_loop n s) \<and>
   (\<exists>W. nvs_writes (trace (end_state (app_main n s))) = nvs_writes (trace s) @ W \<and>
        map fst W \<in> {[], [''ssid'', ''pass''], [''ssid'', ''pass'', ''broker'', ''topic'']})"
proof -
  have round: "\<forall>s1 s2. read_input ''Enter SSID: '' Ssid 32 False s = Ret s1 \<and>
            read_input ''Enter Password: '' Wifi_pass 64 True s1 = Ret s2 \<and>
            fst (attempt_wifi_connect (printf ''Attempting connection...\<newline>'' s2)) \<noteq> ESP_OK \<longrightarrow>
      (\<exists>n. wifi_entry s = wifi_entry n \<and> persists_nothing s n)"
  proof (intro allI impI, elim conjE)
    fix s1 s2
    assume a: "read_input ''Enter SSID: '' Ssid 32 False s = Ret s1"
      "read_input ''Enter Password: '' Wifi_pass 64 True s1 = Ret s2"
      "fst (attempt_wifi_connect (printf ''Attempting connection...\<newline>'' s2)) \<noteq> ESP_OK"
    from wifi_entry_failed_round [OF a]
    show "\<exists>n. wifi_entry s = wifi_entry n \<and> persists_nothing s n" by (intro exI conjI)
  qed
  note w = wifi_entry_result [of s]
  note m = mqtt_entry_result [of s]
  note b = boot_menu_result [of s]
  show ?thesis
  proof (intro conjI)
    show "\<forall>t. wifi_entry s = Blocked t \<longrightarrow> persists_nothing s t" using w by (rule conjunct1)
    show "\<forall>s'. wifi_entry s = Ret s' \<longrightarrow> network_saved s s'" using w by (rule conjunct2)
    show "\<forall>s1 s2. read_input ''Enter SSID: '' Ssid 32 False s = Ret s1 \<and>
            read_input ''Enter Password: '' Wifi_pass 64 True s1 = Ret s2 \<and>
            fst (attempt_wifi_connect (printf ''Attempting connection...\<newline>'' s2)) \<noteq> ESP_OK \<longrightarrow>
      (\<exists>n. wifi_entry s = wifi_entry n \<and> persists_nothing s n)" by (rule round)
    show "\<forall>t. mqtt_entry s = Blocked t \<longrightarrow> persists_nothing s t" using m by (rule conjunct1)
    show "\<forall>s'. mqtt_entry s = Ret s' \<longrightarrow> (\<exists>u. persists_nothing s u \<and> s' = save_broker_topic u)"
      using m by (rule conjunct2)
    show "nvs_writes (trace (save_network s))
     = nvs_writes (trace s) @
       (if open_fault (nvs s) = ESP_OK
        then [(''ssid'', cstr (ssid s)), (''pass'', cstr (wifi_pass s))] else [])"
      by (rule save_network_writes)
    show "nvs_writes (trace (save_broker_topic s))
     = nvs_writes (trace s) @
       (if open_fault (nvs s) = ESP_OK
        then [(''broker'', cstr (mqtt_broker s)), (''topic'', cstr (mqtt_topic s))] else [])"
      by (rule save_broker_topic_writes)
    show "persists_nothing s (snd (auto_connect s))" by (rule auto_connect_persists_nothing)
    show "\<forall>s'. boot_menu s = Ret s' \<longrightarrow> persists_nothing s s' \<or> config_saved s s'"
      using b by (rule conjunct1)
    show "\<forall>t. boot_menu s = Blocked t \<longrightarrow> persists_nothing s t \<or> network_only_saved s t"
      using b by (rule conjunct2)
    show "\<exists>W. nvs_writes (trace (end_state (boot_menu s))) = nvs_writes (trace s) @ W \<and>
        map fst W \<in> {[], [''ssid'', ''pass''], [''ssid'', ''pass'', ''broker'', ''topic'']}"
      by (rule boot_menu_writes)
    show "persists_nothing s (start_mqtt s)" by (rule start_mqtt_persists_nothing)
    show "persists_nothing s (publish_loop n s)" by (rule publish_loop_persists_nothing)
    show "\<exists>W. nvs_writes (trace (end_state (app_main n s))) = nvs_writes (trace s) @ W \<and>
        map fst W \<in> {[], [''ssid'', ''pass''], [''ssid'', ''pass'', ''broker'', ''topic'']}"
      by (rule app_main_writes)
  qed
qed

theorem persistence_points_witness:
  "(\<exists>s'. boot_menu wizard_session = Ret s' \<and> config_saved wizard_session s' \<and>
          nvs_writes (trace s')
            = [(''ssid'', ''a''), (''pass'', ''b''), (''broker'', ''c''), (''topic'', ''d'')]) \<and>
   (\<exists>t. boot_menu failing_session = Blocked t \<and> nvs_writes (trace t) = [] \<and>
         length (filter (\<lambda>a. a = Wifi_stop) (trace t)) = 2)"
proof -
  from wizard_session_run obtain s' where
    s': "boot_menu wizard_session = Ret s'"
        "nvs_writes (trace s')
           = [(''ssid'', ''a''), (''pass'', ''b''), (''broker'', ''c''), (''topic'', ''d'')]"
    by blast
  have t0: "nvs_writes (trace wizard_session) = []"
    by (simp add: wizard_session_def boot_state_def)
  from s' t0 have "\<not> persists_nothing wizard_session s'" by (simp add: persists_nothing_def)
  with persistence_points [of wizard_session] s'(1) have "config_saved wizard_session s'"
    by blast
  with s' have A: "\<exists>s'. boot_menu wizard_session = Ret s' \<and> config_saved wizard_session s' \<and>
          nvs_writes (trace s')
            = [(''ssid'', ''a''), (''pass'', ''b''), (''broker'', ''c''), (''topic'', ''d'')]"
    by blast
  from failing_session_run obtain t where
    t: "boot_menu failing_session = Blocked t" "nvs_writes (trace t) = []"
       "length (filter (\<lambda>a. a = Wifi_stop) (trace t)) = 2"
    by blast
  from persistence_points [of failing_session] t(1)
  have "persists_nothing failing_session t \<or> network_only_saved failing_session t" by blast
  have B: "\<exists>t. boot_menu failing_session = Blocked t \<and> nvs_writes (trace t) = [] \<and>
         length (filter (\<lambda>a. a = Wifi_stop) (trace t)) = 2"
    using t by blast
  from A B show ?thesis by blast
qed

section \<open>Boot menu: selection and exit\<close>

definition valid_choice :: "char \<Rightarrow> bool" where
  "valid_choice ch \<longleftrightarrow> ch = CHR ''O'' \<or> ch = CHR ''o'' \<or> ch = CHR ''N'' \<or> ch = CHR ''n''"

text \<open>The six lines of the menu.\<close>

definition menu_text :: "action list" where
  "menu_text =
     [Printf ''\<newline>===================================\<newline>'',
      Printf ''   BOOT MENU\<newline>'',
      Printf ''   [O] Auto Connect (Load NVS)\<newline>'',
      Printf ''   [N] New Setup (Manual Entry)\<newline>'',
      Printf ''===================================\<newline>'',
      Printf ''Select >> '']"

lemma trace_print_menu: "trace (print_menu s) = trace s @ menu_text"
  by (simp add: print_menu_def menu_text_def)

text \<open>
  One round of the selection wait in which the read times out: the read takes the empty slot
  of the input and the task sleeps 50 ms.
\<close>

definition timed_out :: "state \<Rightarrow> state" where
  "timed_out s = vTaskDelay 50 (deliver (s\<lparr>uart_rx := tl (uart_rx s)\<rparr>))"

text \<open>The state in which the selection wait of an iteration returns, after n timeouts.\<close>

definition selected :: "nat \<Rightarrow> state \<Rightarrow> state" where
  "selected n s =
     (let t = (timed_out ^^ n) (print_menu s) in deliver (t\<lparr>uart_rx := tl (uart_rx t)\<rparr>))"

text \<open>The state after an iteration that waited n timeouts, read the byte ch and rejected it.\<close>

definition rejected :: "nat \<Rightarrow> char \<Rightarrow> state \<Rightarrow> state" where
  "rejected n ch s = printf ''Invalid selection.\<newline>'' (printf [ch, LF] (selected n s))"

lemma wait_choice_first_byte:
  "wait_choice s = Ret (ch, s') \<Longrightarrow> \<exists>n. uart_rx s = replicate n No_byte @ Byte ch # uart_rx s'"
proof (induction s rule: wait_choice.induct)
  case (1 s)
  from "1.prems" obtain r s1 where rd: "uart_read_bytes s = Some (r, s1)"
    by (subst (asm) wait_choice.simps) (auto split: option.splits)
  then have rx: "uart_rx s = r # uart_rx s1"
    by (auto simp: uart_read_bytes_def split: list.splits)
  show ?case
  proof (cases r)
    case No_byte
    with "1.prems" rd have w: "wait_choice (vTaskDelay 50 s1) = Ret (ch, s')"
      by (subst (asm) wait_choice.simps) simp
    from "1.IH" [OF rd [unfolded No_byte] refl refl w] obtain n where
      "uart_rx s1 = replicate n No_byte @ Byte ch # uart_rx s'" by auto
    with rx No_byte have "uart_rx s = replicate (Suc n) No_byte @ Byte ch # uart_rx s'" by simp
    then show ?thesis by blast
  next
    case (Byte c)
    with "1.prems" rd have "c = ch" "s' = s1"
      by (subst (asm) wait_choice.simps, simp)+
    with rx Byte have "uart_rx s = replicate 0 No_byte @ Byte ch # uart_rx s'" by simp
    then show ?thesis by blast
  qed
qed

lemma wait_choice_no_byte:
  "\<forall>r\<in>set (uart_rx s). r = No_byte \<Longrightarrow> \<exists>t. wait_choice s = Blocked t"
proof (induction s rule: wait_choice.induct)
  case (1 s)
  show ?case
  proof (cases "uart_rx s")
    case Nil
    then show ?thesis by (subst wait_choice.simps) (simp add: uart_read_bytes_def)
  next
    case (Cons r rest)
    with "1.prems" have r: "r = No_byte" and rest: "\<forall>r\<in>set rest. r = No_byte" by simp_all
    let ?s1 = "deliver (s\<lparr>uart_rx := rest\<rparr>)"
    have rd: "uart_read_bytes s = Some (No_byte, ?s1)"
      using Cons r by (simp add: uart_read_bytes_def)
    then have e: "wait_choice s = wait_choice (vTaskDelay 50 ?s1)"
      by (subst wait_choice.simps) simp
    have "\<forall>r\<in>set (uart_rx (vTaskDelay 50 ?s1)). r = No_byte" using rest by simp
    from "1.IH" [OF rd refl refl this] show ?thesis unfolding e .
  qed
qed

lemma wait_choice_byte:
  "uart_rx s = Byte ch # rest \<Longrightarrow> wait_choice s = Ret (ch, deliver (s\<lparr>uart_rx := rest\<rparr>))"
  by (subst wait_choice.simps) (simp add: uart_read_bytes_def)

lemma wait_choice_timeout:
  assumes "uart_rx s = No_byte # rest"
  shows "wait_choice s = wait_choice (timed_out s)"
    and "uart_rx (timed_out s) = rest"
    and "trace (timed_out s) = trace s @ [Task_delay 50]"
proof -
  show "wait_choice s = wait_choice (timed_out s)"
    using assms by (subst wait_choice.simps) (simp add: uart_read_bytes_def timed_out_def)
  show "uart_rx (timed_out s) = rest" using assms by (simp add: timed_out_def)
  show "trace (timed_out s) = trace s @ [Task_delay 50]" by (simp add: timed_out_def)
qed

lemma wait_choice_timeouts:
  "uart_rx s = replicate n No_byte @ rest \<Longrightarrow>
   wait_choice s = wait_choice ((timed_out ^^ n) s) \<and>
   uart_rx ((timed_out ^^ n) s) = rest \<and>
   trace ((timed_out ^^ n) s) = trace s @ replicate n (Task_delay 50)"
proof (induction n arbitrary: s)
  case 0
  then show ?case by simp
next
  case (Suc n)
  from Suc.prems have rx: "uart_rx s = No_byte # (replicate n No_byte @ rest)" by simp
  note t = wait_choice_timeout [OF rx]
  from Suc.IH [OF t(2)] t(1,3) show ?case
    by (simp add: funpow_swap1 replicate_app_Cons_same)
qed

lemma wait_choice_after_timeouts:
  assumes "uart_rx s = replicate n No_byte @ Byte ch # rest"
  shows "\<exists>s'. wait_choice s = Ret (ch, s') \<and> uart_rx s' = rest \<and>
              trace s' = trace s @ replicate n (Task_delay 50)"
proof -
  let ?t = "(timed_out ^^ n) s"
  from wait_choice_timeouts [OF assms] have
    t: "wait_choice s = wait_choice ?t" "uart_rx ?t = Byte ch # rest"
       "trace ?t = trace s @ replicate n (Task_delay 50)"
    by simp_all
  from wait_choice_byte [OF t(2)] t(1)
  have "wait_choice s = Ret (ch, deliver (?t\<lparr>uart_rx := rest\<rparr>))" by simp
  moreover have "uart_rx (deliver (?t\<lparr>uart_rx := rest\<rparr>)) = rest" by simp
  moreover have "trace (deliver (?t\<lparr>uart_rx := rest\<rparr>)) = trace s @ replicate n (Task_delay 50)"
    by (simp add: t(3))
  ultimately show ?thesis by (intro exI conjI)
qed

lemma wait_choice_selected:
  assumes "uart_rx s = replicate n No_byte @ Byte ch # rest"
  shows "wait_choice (print_menu s) = Ret (ch, selected n s)"
    and "uart_rx (selected n s) = rest"
    and "trace (selected n s) = trace s @ menu_text @ replicate n (Task_delay 50)"
proof -
  let ?t = "(timed_out ^^ n) (print_menu s)"
  have rx: "uart_rx (print_menu s) = replicate n No_byte @ Byte ch # rest" using assms by simp
  from wait_choice_timeouts [OF rx] have
    t: "wait_choice (print_menu s) = wait_choice ?t" "uart_rx ?t = Byte ch # rest"
       "trace ?t = trace (print_menu s) @ replicate n (Task_delay 50)"
    by simp_all
  have sel: "selected n s = deliver (?t\<lparr>uart_rx := rest\<rparr>)"
    by (simp add: selected_def Let_def t(2))
  from wait_choice_byte [OF t(2)] t(1) show "wait_choice (print_menu s) = Ret (ch, selected n s)"
    by (simp add: sel)
  show "uart_rx (selected n s) = rest" by (simp add: sel)
  show "trace (selected n s) = trace s @ menu_text @ replicate n (Task_delay 50)"
    by (simp add: sel t(3) trace_print_menu)
qed

lemma first_byte_split:
  "\<not> (\<forall>r\<in>set rxs. r = No_byte) \<Longrightarrow> \<exists>n ch rest. rxs = replicate n No_byte @ Byte ch # rest"
proof (induction rxs)
  case Nil
  then show ?case by simp
next
  case (Cons r rxs)
  show ?case
  proof (cases r)
    case (Byte ch)
    then have "r # rxs = replicate 0 No_byte @ Byte ch # rxs" by simp
    then show ?thesis by blast
  next
    case No_byte
    with Cons.prems have "\<not> (\<forall>r\<in>set rxs. r = No_byte)" by simp
    from Cons.IH [OF this] obtain n ch rest where "rxs = replicate n No_byte @ Byte ch # rest"
      by blast
    with No_byte have "r # rxs = replicate (Suc n) No_byte @ Byte ch # rest" by simp
    then show ?thesis by blast
  qed
qed

lemma wait_choice_blocked_iff:
  "(\<exists>t. wait_choice s = Blocked t) \<longleftrightarrow> (\<forall>r\<in>set (uart_rx s). r = No_byte)"
proof
  assume b: "\<exists>t. wait_choice s = Blocked t"
  show "\<forall>r\<in>set (uart_rx s). r = No_byte"
  proof (rule ccontr)
    assume "\<not> (\<forall>r\<in>set (uart_rx s). r = No_byte)"
    from first_byte_split [OF this] obtain n ch rest where
      "uart_rx s = replicate n No_byte @ Byte ch # rest" by blast
    from wait_choice_after_timeouts [OF this] b show False by auto
  qed
next
  assume "\<forall>r\<in>set (uart_rx s). r = No_byte"
  then show "\<exists>t. wait_choice s = Blocked t" by (rule wait_choice_no_byte)
qed

lemma menu_iteration_selected:
  "wait_choice (print_menu s) = Ret (ch, s1) \<Longrightarrow>
   menu_iteration s =
     (if ch = CHR ''O'' \<or> ch = CHR ''o'' then Ret (auto_connect (printf [ch, LF] s1))
      else if ch = CHR ''N'' \<or> ch = CHR ''n'' then
        (case wizard (printf [ch, LF] s1) of
           Blocked t \<Rightarrow> Blocked t
         | Ret s3 \<Rightarrow> Ret (True, s3))
      else Ret (False, printf ''Invalid selection.\<newline>'' (printf [ch, LF] s1)))"
  by (simp add: menu_iteration_def)

lemma boot_menu_selected:
  assumes "uart_rx s = replicate n No_byte @ Byte ch # rest"
  shows "boot_menu s =
     (if ch = CHR ''O'' \<or> ch = CHR ''o'' then
        (case auto_connect (printf [ch, LF] (selected n s)) of
           (config_ready, s2) \<Rightarrow> if config_ready then Ret s2 else boot_menu s2)
      else if ch = CHR ''N'' \<or> ch = CHR ''n'' then
        (case wizard (printf [ch, LF] (selected n s)) of
           Blocked t \<Rightarrow> Blocked t
         | Ret s3 \<Rightarrow> Ret s3)
      else boot_menu (rejected n ch s))"
proof -
  note m = menu_iteration_selected [OF wait_choice_selected(1) [OF assms]]
  show ?thesis
    by (subst boot_menu.simps)
       (simp add: m rejected_def split: prod.splits outcome.splits)
qed

lemma boot_menu_rejects:
  assumes "uart_rx s = replicate n No_byte @ Byte ch # rest" and "\<not> valid_choice ch"
  shows "boot_menu s = boot_menu (rejected n ch s)"
    and "uart_rx (rejected n ch s) = rest"
    and "trace (rejected n ch s)
           = trace s @ menu_text @ replicate n (Task_delay 50) @
             [Printf [ch, LF], Printf ''Invalid selection.\<newline>'']"
proof -
  from boot_menu_selected [OF assms(1)] assms(2)
  show "boot_menu s = boot_menu (rejected n ch s)" by (simp add: valid_choice_def)
  show "uart_rx (rejected n ch s) = rest"
    by (simp add: rejected_def wait_choice_selected(2) [OF assms(1)])
  show "trace (rejected n ch s)
           = trace s @ menu_text @ replicate n (Task_delay 50) @
             [Printf [ch, LF], Printf ''Invalid selection.\<newline>'']"
    by (simp add: rejected_def wait_choice_selected(3) [OF assms(1)])
qed

text \<open>A run of keystrokes, each after some timeouts, and the lines that answer one of them.\<close>

definition keystrokes :: "(nat \<times> char) list \<Rightarrow> rx list" where
  "keystrokes ks = concat (map (\<lambda>(n, ch). replicate n No_byte @ [Byte ch]) ks)"

definition rejection :: "nat \<times> char \<Rightarrow> action list" where
  "rejection k =
     menu_text @ replicate (fst k) (Task_delay 50) @
     [Printf [snd k, LF], Printf ''Invalid selection.\<newline>'']"

lemma boot_menu_rejects_all:
  "uart_rx s = keystrokes junk @ rest \<Longrightarrow> \<forall>k\<in>set junk. \<not> valid_choice (snd k) \<Longrightarrow>
   boot_menu s = boot_menu (foldl (\<lambda>t k. rejected (fst k) (snd k) t) s junk) \<and>
   uart_rx (foldl (\<lambda>t k. rejected (fst k) (snd k) t) s junk) = rest \<and>
   trace (foldl (\<lambda>t k. rejected (fst k) (snd k) t) s junk)
     = trace s @ concat (map rejection junk)"
proof (induction junk arbitrary: s)
  case Nil
  then show ?case by (simp add: keystrokes_def)
next
  case (Cons k junk)
  obtain n ch where k: "k = (n, ch)" by (cases k)
  from Cons.prems k have rx: "uart_rx s = replicate n No_byte @ Byte ch # (keystrokes junk @ rest)"
    and nv: "\<not> valid_choice ch"
    by (simp_all add: keystrokes_def)
  note st = boot_menu_rejects [OF rx nv]
  from Cons.IH [of "rejected n ch s"] st(2) Cons.prems(2)
  have IH: "boot_menu (rejected n ch s)
              = boot_menu (foldl (\<lambda>t k. rejected (fst k) (snd k) t) (rejected n ch s) junk)"
    "uart_rx (foldl (\<lambda>t k. rejected (fst k) (snd k) t) (rejected n ch s) junk) = rest"
    "trace (foldl (\<lambda>t k. rejected (fst k) (snd k) t) (rejected n ch s) junk)
       = trace (rejected n ch s) @ concat (map rejection junk)"
    by simp_all
  have r: "rejection k = menu_text @ replicate n (Task_delay 50) @
             [Printf [ch, LF], Printf ''Invalid selection.\<newline>'']"
    by (simp add: rejection_def k)
  show ?case
    by (simp add: k st(1) IH st(3) r [unfolded k])
qed

lemma boot_menu_exit:
  "boot_menu s = Ret s' \<Longrightarrow>
   \<exists>t ch s1. wait_choice (print_menu t) = Ret (ch, s1) \<and>
     ((ch = CHR ''O'' \<or> ch = CHR ''o'') \<and> auto_connect (printf [ch, LF] s1) = (True, s') \<or>
      (ch = CHR ''N'' \<or> ch = CHR ''n'') \<and> wizard (printf [ch, LF] s1) = Ret s')"
proof (induction s rule: boot_menu.induct)
  case (1 s)
  from "1.prems" obtain config_ready s1 where m: "menu_iteration s = Ret (config_ready, s1)"
    by (subst (asm) boot_menu.simps) (auto split: outcome.splits)
  show ?case
  proof (cases config_ready)
    case False
    with "1.prems" m have "boot_menu s1 = Ret s'"
      by (subst (asm) boot_menu.simps) simp
    from "1.IH" [OF m refl _ this] False show ?thesis by simp
  next
    case True
    with "1.prems" m have s': "s1 = s'"
      by (subst (asm) boot_menu.simps) simp
    from m obtain ch s2 where w: "wait_choice (print_menu s) = Ret (ch, s2)"
      by (auto simp: menu_iteration_def split: outcome.splits)
    from m [unfolded menu_iteration_selected [OF w]] True s'
    have "(ch = CHR ''O'' \<or> ch = CHR ''o'') \<and> auto_connect (printf [ch, LF] s2) = (True, s') \<or>
      (ch = CHR ''N'' \<or> ch = CHR ''n'') \<and> wizard (printf [ch, LF] s2) = Ret s'"
      by (auto split: if_splits outcome.splits)
    with w show ?thesis by blast
  qed
qed


lemma boot_menu_no_input: "uart_rx s = [] \<Longrightarrow> boot_menu s = Blocked (print_menu s)"
proof -
  assume "uart_rx s = []"
  then have "wait_choice (print_menu s) = Blocked (print_menu s)"
    by (subst wait_choice.simps) (simp add: uart_read_bytes_def)
  then show ?thesis by (subst boot_menu.simps) (simp add: menu_iteration_def)
qed

lemma timeouts_nvs [simp]: "nvs ((timed_out ^^ n) s) = nvs s"
  by (induction n) (simp_all add: timed_out_def)

lemma rejected_nvs [simp]: "nvs (selected n s) = nvs s" "nvs (rejected n ch s) = nvs s"
  by (simp_all add: rejected_def selected_def Let_def print_menu_def)

text \<open>
  C7. The selection wait returns the first byte that arrives, after however many timeouts,
  each followed by a sleep of 50 ms, and consumes nothing else; it never returns exactly when
  no byte arrives. The iteration then takes the Auto Connect branch for O or o, the wizard
  for N or n, and for any other byte prints \<^verbatim>\<open>Invalid selection.\<close> and leaves
  \<^verbatim>\<open>config_ready\<close> false: on an input that brings the byte ch after n timeouts the loop
  returns with the state of a successful Auto Connect, goes round again after a failed one,
  ends as the wizard ends, and goes round again after any other byte. Any run of such bytes,
  however long and however slowly typed, is answered one by one with the menu and the
  diagnostic, and the loop goes on with the rest of the input. The loop returns only from an
  iteration whose Auto Connect branch set \<^verbatim>\<open>config_ready\<close> or whose wizard returned.
\<close>

theorem boot_menu_selection:
  "(\<forall>ch s'. wait_choice s = Ret (ch, s') \<longrightarrow>
      (\<exists>n. uart_rx s = replicate n No_byte @ Byte ch # uart_rx s')) \<and>
   (\<forall>n ch rest. uart_rx s = replicate n No_byte @ Byte ch # rest \<longrightarrow>
      (\<exists>s'. wait_choice s = Ret (ch, s') \<and> uart_rx s' = rest \<and>
            trace s' = trace s @ replicate n (Task_delay 50))) \<and>
   ((\<exists>t. wait_choice s = Blocked t) \<longleftrightarrow> (\<forall>r\<in>set (uart_rx s). r = No_byte)) \<and>
   (\<forall>ch s1. wait_choice (print_menu s) = Ret (ch, s1) \<longrightarrow>
      menu_iteration s =
        (if ch = CHR ''O'' \<or> ch = CHR ''o'' then Ret (auto_connect (printf [ch, LF] s1))
         else if ch = CHR ''N'' \<or> ch = CHR ''n'' then
           (case wizard (printf [ch, LF] s1) of
              Blocked t \<Rightarrow> Blocked t
            | Ret s3 \<Rightarrow> Ret (True, s3))
         else Ret (False, printf ''Invalid selection.\<newline>'' (printf [ch, LF] s1)))) \<and>
   (\<forall>n ch rest. uart_rx s = replicate n No_byte @ Byte ch # rest \<longrightarrow>
      wait_choice (print_menu s) = Ret (ch, selected n s) \<and>
      uart_rx (selected n s) = rest \<and>
      trace (selected n s) = trace s @ menu_text @ replicate n (Task_delay 50) \<and>
      boot_menu s =
        (if ch = CHR ''O'' \<or> ch = CHR ''o'' then
           (case auto_connect (printf [ch, LF] (selected n s)) of
              (config_ready, s2) \<Rightarrow> if config_ready then Ret s2 else boot_menu s2)
         else if ch = CHR ''N'' \<or> ch = CHR ''n'' then
           (case wizard (printf [ch, LF] (selected n s)) of
              Blocked t \<Rightarrow> Blocked t
            | Ret s3 \<Rightarrow> Ret s3)
         else boot_menu (rejected n ch s))) \<and>
   (\<forall>junk rest. uart_rx s = keystrokes junk @ rest \<and> (\<forall>k\<in>set junk. \<not> valid_choice (snd k)) \<longrightarrow>
      boot_menu s = boot_menu (foldl (\<lambda>t k. rejected (fst k) (snd k) t) s junk) \<and>
      uart_rx (foldl (\<lambda>t k. rejected (fst k) (snd k) t) s junk) = rest \<and>
      trace (foldl (\<lambda>t k. rejected (fst k) (snd k) t) s junk)
        = trace s @ concat (map rejection junk)) \<and>
   (\<forall>s'. boot_menu s = Ret s' \<longrightarrow>
      (\<exists>t ch s1. wait_choice (print_menu t) = Ret (ch, s1) \<and>
         ((ch = CHR ''O'' \<or> ch = CHR ''o'') \<and> auto_connect (printf [ch, LF] s1) = (True, s') \<or>
          (ch = CHR ''N'' \<or> ch = CHR ''n'') \<and> wizard (printf [ch, LF] s1) = Ret s')))"
proof (intro conjI allI impI)
  fix ch s'
  assume "wait_choice s = Ret (ch, s')"
  then show "\<exists>n. uart_rx s = replicate n No_byte @ Byte ch # uart_rx s'"
    by (rule wait_choice_first_byte)
next
  fix n ch rest
  assume "uart_rx s = replicate n No_byte @ Byte ch # rest"
  then show "\<exists>s'. wait_choice s = Ret (ch, s') \<and> uart_rx s' = rest \<and>
            trace s' = trace s @ replicate n (Task_delay 50)"
    by (rule wait_choice_after_timeouts)
next
  show "(\<exists>t. wait_choice s = Blocked t) \<longleftrightarrow> (\<forall>r\<in>set (uart_rx s). r = No_byte)"
    by (rule wait_choice_blocked_iff)
next
  fix ch s1
  assume "wait_choice (print_menu s) = Ret (ch, s1)"
  then show "menu_iteration s =
        (if ch = CHR ''O'' \<or> ch = CHR ''o'' then Ret (auto_connect (printf [ch, LF] s1))
         else if ch = CHR ''N'' \<or> ch = CHR ''n'' then
           (case wizard (printf [ch, LF] s1) of
              Blocked t \<Rightarrow> Blocked t
            | Ret s3 \<Rightarrow> Ret (True, s3))
         else Ret (False, printf ''Invalid selection.\<newline>'' (printf [ch, LF] s1)))"
    by (rule menu_iteration_selected)
next
  fix n ch rest
  assume a: "uart_rx s = replicate n No_byte @ Byte ch # rest"
  show "wait_choice (print_menu s) = Ret (ch, selected n s)"
    by (rule wait_choice_selected(1) [OF a])
  show "uart_rx (selected n s) = rest" by (rule wait_choice_selected(2) [OF a])
  show "trace (selected n s) = trace s @ menu_text @ replicate n (Task_delay 50)"
    by (rule wait_choice_selected(3) [OF a])
  show "boot_menu s =
        (if ch = CHR ''O'' \<or> ch = CHR ''o'' then
           (case auto_connect (printf [ch, LF] (selected n s)) of
              (config_ready, s2) \<Rightarrow> if config_ready then Ret s2 else boot_menu s2)
         else if ch = CHR ''N'' \<or> ch = CHR ''n'' then
           (case wizard (printf [ch, LF] (selected n s)) of
              Blocked t \<Rightarrow> Blocked t
            | Ret s3 \<Rightarrow> Ret s3)
         else boot_menu (rejected n ch s))"
    by (rule boot_menu_selected [OF a])
next
  fix junk rest
  assume a: "uart_rx s = keystrokes junk @ rest \<and> (\<forall>k\<in>set junk. \<not> valid_choice (snd k))"
  then have a1: "uart_rx s = keystrokes junk @ rest"
    and a2: "\<forall>k\<in>set junk. \<not> valid_choice (snd k)"
    by simp_all
  note r = boot_menu_rejects_all [OF a1 a2]
  from r show "boot_menu s = boot_menu (foldl (\<lambda>t k. rejected (fst k) (snd k) t) s junk)"
    by (rule conjunct1)
  from r show "uart_rx (foldl (\<lambda>t k. rejected (fst k) (snd k) t) s junk) = rest" by simp
  from r show "trace (foldl (\<lambda>t k. rejected (fst k) (snd k) t) s junk)
        = trace s @ concat (map rejection junk)"
    by simp
next
  fix s'
  assume "boot_menu s = Ret s'"
  then show "\<exists>t ch s1. wait_choice (print_menu t) = Ret (ch, s1) \<and>
         ((ch = CHR ''O'' \<or> ch = CHR ''o'') \<and> auto_connect (printf [ch, LF] s1) = (True, s') \<or>
          (ch = CHR ''N'' \<or> ch = CHR ''n'') \<and> wizard (printf [ch, LF] s1) = Ret s')"
    by (rule boot_menu_exit)
qed

text \<open>
  The operator hesitates, types x, then Enter, then O, with pauses before each key; the flash
  holds no configuration.
\<close>

definition hesitant_session :: state where
  "hesitant_session =
     boot_state (flash_with Map.empty)
       [No_byte, No_byte, Byte CHR ''x'', No_byte, Byte CR, No_byte, Byte CHR ''O''] []"

theorem boot_menu_selection_witness:
  "(\<exists>s'. wait_choice hesitant_session = Ret (CHR ''x'', s') \<and>
         uart_rx s' = [No_byte, Byte CR, No_byte, Byte CHR ''O''] \<and>
         trace s' = [Task_delay 50, Task_delay 50]) \<and>
   boot_menu hesitant_session
     = boot_menu (rejected 1 CR (rejected 2 CHR ''x'' hesitant_session)) \<and>
   uart_rx (rejected 1 CR (rejected 2 CHR ''x'' hesitant_session)) = [No_byte, Byte CHR ''O''] \<and>
   trace (rejected 1 CR (rejected 2 CHR ''x'' hesitant_session))
     = menu_text @ [Task_delay 50, Task_delay 50, Printf [CHR ''x'', LF],
                    Printf ''Invalid selection.\<newline>''] @
       menu_text @ [Task_delay 50, Printf [CR, LF], Printf ''Invalid selection.\<newline>''] \<and>
   (\<exists>t. boot_menu hesitant_session = Blocked t \<and>
        trace t
          = menu_text @ [Task_delay 50, Task_delay 50, Printf [CHR ''x'', LF],
                         Printf ''Invalid selection.\<newline>''] @
            menu_text @ [Task_delay 50, Printf [CR, LF], Printf ''Invalid selection.\<newline>''] @
            menu_text @ [Task_delay 50, Printf [CHR ''O'', LF], Printf msg_loading,
                         Printf msg_no_config] @
            menu_text)"
proof -
  let ?h = "hesitant_session"
  let ?r = "rejected 1 CR (rejected 2 CHR ''x'' ?h)"
  have tr: "trace ?h = []" and fl: "nvs ?h = flash_with Map.empty"
    by (simp_all add: hesitant_session_def boot_state_def)
  have rx1: "uart_rx ?h = replicate 2 No_byte @ Byte CHR ''x'' # [No_byte, Byte CR, No_byte, Byte CHR ''O'']"
    by (simp add: hesitant_session_def boot_state_def eval_nat_numeral)
  have rx2: "uart_rx ?h = keystrokes [(2, CHR ''x''), (1, CR)] @ [No_byte, Byte CHR ''O'']"
    by (simp add: hesitant_session_def boot_state_def keystrokes_def eval_nat_numeral)
  have nv: "\<forall>k\<in>set [(2, CHR ''x''), (1, CR)]. \<not> valid_choice (snd k)"
    by (simp add: valid_choice_def)
  note T = boot_menu_selection [of ?h]
  from T rx1 have A: "\<exists>s'. wait_choice ?h = Ret (CHR ''x'', s') \<and>
         uart_rx s' = [No_byte, Byte CR, No_byte, Byte CHR ''O''] \<and>
         trace s' = trace ?h @ replicate 2 (Task_delay 50)"
    by blast
  from T rx2 nv
  have B: "boot_menu ?h
          = boot_menu (foldl (\<lambda>t k. rejected (fst k) (snd k) t) ?h [(2, CHR ''x''), (1, CR)]) \<and>
        uart_rx (foldl (\<lambda>t k. rejected (fst k) (snd k) t) ?h [(2, CHR ''x''), (1, CR)])
          = [No_byte, Byte CHR ''O''] \<and>
        trace (foldl (\<lambda>t k. rejected (fst k) (snd k) t) ?h [(2, CHR ''x''), (1, CR)])
          = trace ?h @ concat (map rejection [(2, CHR ''x''), (1, CR)])"
    by blast
  then have B1: "boot_menu ?h = boot_menu ?r"
    and B2: "uart_rx ?r = [No_byte, Byte CHR ''O'']"
    and B3: "trace ?r
     = menu_text @ [Task_delay 50, Task_delay 50, Printf [CHR ''x'', LF],
                    Printf ''Invalid selection.\<newline>''] @
       menu_text @ [Task_delay 50, Printf [CR, LF], Printf ''Invalid selection.\<newline>'']"
    by (simp_all add: tr rejection_def eval_nat_numeral)
  have rx3: "uart_rx ?r = replicate 1 No_byte @ Byte CHR ''O'' # []"
    unfolding B2 by simp
  let ?s = "printf [CHR ''O'', LF] (selected 1 ?r)"
  note T2 = boot_menu_selection [of ?r, THEN conjunct2, THEN conjunct2, THEN conjunct2,
      THEN conjunct2, THEN conjunct1, rule_format, OF rx3]
  from T2
  have C: "uart_rx (selected 1 ?r) = [] \<and>
      trace (selected 1 ?r) = trace ?r @ menu_text @ replicate 1 (Task_delay 50) \<and>
      boot_menu ?r =
        (case auto_connect ?s of
           (config_ready, s2) \<Rightarrow> if config_ready then Ret s2 else boot_menu s2)"
    by simp
  have "nvs ?s = flash_with Map.empty" by (simp add: fl)
  then have "missing ''ssid'' (nvs ?s)" by (simp add: missing_def flash_with_def)
  then have "\<not> ssid_ok ?s" unfolding ssid_ok_def by (rule missing_load_code)
  then have ac: "auto_connect ?s
      = (False, ?s\<lparr>trace := trace ?s @ [Printf msg_loading, Printf msg_no_config]\<rparr>)"
    by (rule auto_connect_ssid_fails)
  let ?u = "?s\<lparr>trace := trace ?s @ [Printf msg_loading, Printf msg_no_config]\<rparr>"
  have rxu: "uart_rx (print_menu ?u) = []" using C by simp
  then have "uart_rx ?u = []" by simp
  then have "boot_menu ?u = Blocked (print_menu ?u)" by (rule boot_menu_no_input)
  with C ac B1 have D1: "boot_menu ?h = Blocked (print_menu ?u)" by simp
  have D2: "trace (print_menu ?u)
          = menu_text @ [Task_delay 50, Task_delay 50, Printf [CHR ''x'', LF],
                         Printf ''Invalid selection.\<newline>''] @
            menu_text @ [Task_delay 50, Printf [CR, LF], Printf ''Invalid selection.\<newline>''] @
            menu_text @ [Task_delay 50, Printf [CHR ''O'', LF], Printf msg_loading,
                         Printf msg_no_config] @
            menu_text"
  proof -
    have e1: "trace (selected 1 ?r)
        = (menu_text @ [Task_delay 50, Task_delay 50, Printf [CHR ''x'', LF],
                        Printf ''Invalid selection.\<newline>''] @
           menu_text @ [Task_delay 50, Printf [CR, LF], Printf ''Invalid selection.\<newline>'']) @
          menu_text @ [Task_delay 50]"
      using C unfolding B3 by simp
    have e2: "trace ?u = trace (selected 1 ?r) @
        [Printf [CHR ''O'', LF], Printf msg_loading, Printf msg_no_config]"
      by simp
    show ?thesis unfolding trace_print_menu e2 e1 by simp
  qed
  from A have A': "\<exists>s'. wait_choice ?h = Ret (CHR ''x'', s') \<and>
         uart_rx s' = [No_byte, Byte CR, No_byte, Byte CHR ''O''] \<and>
         trace s' = [Task_delay 50, Task_delay 50]"
    by (simp add: tr eval_nat_numeral)
  from D1 D2 have D: "\<exists>t. boot_menu ?h = Blocked t \<and>
        trace t
          = menu_text @ [Task_delay 50, Task_delay 50, Printf [CHR ''x'', LF],
                         Printf ''Invalid selection.\<newline>''] @
            menu_text @ [Task_delay 50, Printf [CR, LF], Printf ''Invalid selection.\<newline>''] @
            menu_text @ [Task_delay 50, Printf [CHR ''O'', LF], Printf msg_loading,
                         Printf msg_no_config] @
            menu_text"
    by (intro exI conjI)
  from A' B1 B2 B3 D show ?thesis by (intro conjI)
qed

section \<open>Empty configuration values\<close>

lemma read_input_empty_line:
  assumes rx: "uart_rx s = Byte ch # rest" and ch: "ch = CR \<or> ch = LF"
    and len: "1 < len" "len < 2 ^ 32" "len \<le> length (get_buf b s)"
  shows "\<exists>s'. read_input prompt b len masked s = Ret s' \<and> cstr (get_buf b s') = [] \<and>
              uart_rx s' = rest \<and> console_only b s s' \<and>
              length (get_buf b s') = length (get_buf b s)"
proof -
  have l0: "0 < len" using len by simp
  have spec: "spec_read_line (len - 1) masked (uart_rx s) [] [] = Some ([], [] @ [nl], rest)"
    unfolding rx using len ch by (intro spec_read_line_terminator) simp_all
  note ref = read_input_refines [OF l0 len(2,3), of prompt masked]
  show ?thesis
  proof (cases "read_input prompt b len masked s")
    case (Blocked t)
    with ref [of t] spec show ?thesis by simp
  next
    case (Ret s')
    with ref [of s'] spec have "cstr (get_buf b s') = []" "uart_rx s' = rest"
      "length (get_buf b s') = length (get_buf b s)" by auto
    moreover have "console_only b s s'"
      using read_input_console_only [of b s prompt len masked] Ret by simp
    ultimately show ?thesis using Ret by simp
  qed
qed

lemma console_only_other: "console_only b s t \<Longrightarrow> c \<noteq> b \<Longrightarrow> get_buf c t = get_buf c s"
  by (simp add: console_only_def)

lemma save_to_nvs_storage:
  "open_fault (nvs s) = ESP_OK \<Longrightarrow> set_fault (nvs s) = ESP_OK \<Longrightarrow>
   storage (nvs (snd (save_to_nvs key val s)))
     = Some ((case storage (nvs s) of None \<Rightarrow> Map.empty | Some m \<Rightarrow> m)(key \<mapsto> cstr val)) \<and>
   set_fault (nvs (snd (save_to_nvs key val s))) = ESP_OK"
  by (simp add: save_to_nvs_def nvs_open_def nvs_set_str_def case_prod_beta split: option.splits)

lemma mqtt_entry_empty:
  assumes rx: "uart_rx s = Byte c1 # Byte c2 # rest"
    and c1: "c1 = CR \<or> c1 = LF" and c2: "c2 = CR \<or> c2 = LF"
    and lb: "length (mqtt_broker s) = 64" and lt: "length (mqtt_topic s) = 64"
  shows "\<exists>s'. mqtt_entry s = Ret s' \<and>
           nvs_writes (trace s')
             = nvs_writes (trace s) @
               (if open_fault (nvs s) = ESP_OK then [(''broker'', []), (''topic'', [])] else []) \<and>
           (open_fault (nvs s) = ESP_OK \<and> set_fault (nvs s) = ESP_OK \<longrightarrow>
              (\<exists>m. storage (nvs s') = Some m \<and> m ''broker'' = Some [] \<and> m ''topic'' = Some []))"
proof -
  from read_input_empty_line [OF rx c1, of 64 Mqtt_broker "''Enter MQTT Broker IP: ''" False] lb
  obtain s2 where s2: "read_input ''Enter MQTT Broker IP: '' Mqtt_broker 64 False s = Ret s2"
    "cstr (mqtt_broker s2) = []" "uart_rx s2 = Byte c2 # rest" "console_only Mqtt_broker s s2"
    by auto
  from console_only_other [OF s2(4), of Mqtt_topic] lt
  have lt2: "length (get_buf Mqtt_topic s2) = 64" by simp
  from read_input_empty_line [OF s2(3) c2, of 64 Mqtt_topic "''Enter MQTT Topic: ''" False] lt2
  obtain s3 where s3: "read_input ''Enter MQTT Topic: '' Mqtt_topic 64 False s2 = Ret s3"
    "cstr (mqtt_topic s3) = []" "console_only Mqtt_topic s2 s3"
    by auto
  from console_only_other [OF s3(3), of Mqtt_broker] s2(2)
  have b3: "cstr (mqtt_broker s3) = []" by simp
  have p: "persists_nothing s s3"
    using s2(4) s3(3) by (auto simp: console_only_def intro: persists_nothing_trans)
  then have n3: "nvs s3 = nvs s" "nvs_writes (trace s3) = nvs_writes (trace s)"
    by (simp_all add: persists_nothing_def)
  have e: "mqtt_entry s = Ret (save_broker_topic s3)"
    using s2(1) s3(1) by (simp add: mqtt_entry_def save_broker_topic_def)
  have w: "nvs_writes (trace (save_broker_topic s3))
             = nvs_writes (trace s) @
               (if open_fault (nvs s) = ESP_OK then [(''broker'', []), (''topic'', [])] else [])"
    by (simp add: save_broker_topic_writes n3 b3 s3(2))
  have st: "\<exists>m. storage (nvs (save_broker_topic s3)) = Some m \<and> m ''broker'' = Some [] \<and>
             m ''topic'' = Some []"
    if "open_fault (nvs s) = ESP_OK \<and> set_fault (nvs s) = ESP_OK"
  proof -
    let ?s4 = "snd (save_to_nvs ''broker'' (mqtt_broker s3) s3)"
    from that n3 have f3: "open_fault (nvs s3) = ESP_OK" "set_fault (nvs s3) = ESP_OK" by simp_all
    note a = save_to_nvs_storage [OF f3, of "''broker''" "mqtt_broker s3"]
    have f4: "open_fault (nvs ?s4) = ESP_OK" "set_fault (nvs ?s4) = ESP_OK"
      using f3 a by simp_all
    note b = save_to_nvs_storage [OF f4, of "''topic''" "mqtt_topic ?s4"]
    show ?thesis
      using a b by (simp add: save_broker_topic_def Let_def b3 s3(2))
  qed
  from e w st show ?thesis by blast
qed


lemma attempt_issues_connect: "Wifi_connect \<in> set (trace (snd (attempt_wifi_connect s)))"
proof -
  from attempt_wifi_connect_polls [of s] obtain k where
    "snd (attempt_wifi_connect s) = polls k (link_requested s)" by blast
  then show ?thesis by (simp add: trace_polls link_requested_effect)
qed

lemma load_code_empty_value:
  "open_fault fl = ESP_OK \<Longrightarrow> storage fl = Some m \<Longrightarrow> m key = Some [] \<Longrightarrow> 0 < max_len \<Longrightarrow>
   load_code fl key max_len = ESP_OK \<and> cstr (snd (load_from_nvs fl key buf max_len)) = []"
  by (simp add: load_code_def load_from_nvs_def nvs_open_def nvs_get_str_def cstr_def)

lemma empty_config_passes_gate:
  assumes fl: "open_fault (nvs s) = ESP_OK" "storage (nvs s) = Some m"
    and m: "m ''ssid'' = Some []" "m ''pass'' = Some []" "m ''broker'' = Some []" "m ''topic'' = Some []"
  shows "ssid_ok s \<and> pass_ok s \<and> broker_ok s \<and> topic_ok s"
    and "cstr (ssid (config_loaded s)) = [] \<and> cstr (wifi_pass (config_loaded s)) = [] \<and>
         cstr (mqtt_broker (config_loaded s)) = [] \<and> cstr (mqtt_topic (config_loaded s)) = []"
    and "fst (auto_connect s) \<longleftrightarrow> fst (attempt_wifi_connect (config_loaded s)) = ESP_OK"
    and "Wifi_connect \<in> set (trace (snd (auto_connect s)))"
proof -
  show ok: "ssid_ok s \<and> pass_ok s \<and> broker_ok s \<and> topic_ok s"
    using load_code_empty_value [OF fl] m
    by (simp add: ssid_ok_def pass_ok_def broker_ok_def topic_ok_def)
  show "cstr (ssid (config_loaded s)) = [] \<and> cstr (wifi_pass (config_loaded s)) = [] \<and>
         cstr (mqtt_broker (config_loaded s)) = [] \<and> cstr (mqtt_topic (config_loaded s)) = []"
    using load_code_empty_value [OF fl] m
    by (simp add: config_loaded_def loaded_ssid_def loaded_pass_def loaded_broker_def
        loaded_topic_def)
  from ok have e: "auto_connect s =
     (case attempt_wifi_connect (config_loaded s) of
        (err, s6) \<Rightarrow>
          if err = ESP_OK then (True, s6)
          else (False, printf ''Failed to connect! Please use New Setup [N].\<newline>'' s6))"
    by (simp add: auto_connect_all_ok)
  show "fst (auto_connect s) \<longleftrightarrow> fst (attempt_wifi_connect (config_loaded s)) = ESP_OK"
    by (simp add: e case_prod_beta)
  show "Wifi_connect \<in> set (trace (snd (auto_connect s)))"
    using attempt_issues_connect [of "config_loaded s"] by (simp add: e case_prod_beta)
qed

text \<open>
  C10. Nothing checks that a field is non-empty. \<open>read_input\<close> on an input that starts
  with a terminator returns with the empty string in the buffer. The MQTT entry given two
  such lines calls \<^verbatim>\<open>nvs_set_str\<close> with the empty broker and the empty topic, and a
  working flash then holds both. With the four keys stored as empty strings the four loads
  answer \<^const>\<open>ESP_OK\<close>, the buffers hold empty strings, and Auto Connect goes on to the
  link attempt, whose result alone decides \<^verbatim>\<open>config_ready\<close>.
\<close>

theorem empty_fields_accepted:
  "(\<forall>ch rest. uart_rx s = Byte ch # rest \<and> (ch = CR \<or> ch = LF) \<and>
       1 < len \<and> len < 2 ^ 32 \<and> len \<le> length (get_buf b s) \<longrightarrow>
       (\<exists>s'. read_input prompt b len masked s = Ret s' \<and> cstr (get_buf b s') = [] \<and>
             uart_rx s' = rest)) \<and>
   (\<forall>c1 c2 rest. uart_rx s = Byte c1 # Byte c2 # rest \<and> (c1 = CR \<or> c1 = LF) \<and>
       (c2 = CR \<or> c2 = LF) \<and> length (mqtt_broker s) = 64 \<and> length (mqtt_topic s) = 64 \<longrightarrow>
       (\<exists>s'. mqtt_entry s = Ret s' \<and>
          nvs_writes (trace s')
            = nvs_writes (trace s) @
              (if open_fault (nvs s) = ESP_OK then [(''broker'', []), (''topic'', [])] else []) \<and>
          (open_fault (nvs s) = ESP_OK \<and> set_fault (nvs s) = ESP_OK \<longrightarrow>
             (\<exists>m. storage (nvs s') = Some m \<and> m ''broker'' = Some [] \<and> m ''topic'' = Some [])))) \<and>
   (\<forall>m. open_fault (nvs s) = ESP_OK \<and> storage (nvs s) = Some m \<and> m ''ssid'' = Some [] \<and>
       m ''pass'' = Some [] \<and> m ''broker'' = Some [] \<and> m ''topic'' = Some [] \<longrightarrow>
       ssid_ok s \<and> pass_ok s \<and> broker_ok s \<and> topic_ok s \<and>
       cstr (ssid (config_loaded s)) = [] \<and> cstr (wifi_pass (config_loaded s)) = [] \<and>
       cstr (mqtt_broker (config_loaded s)) = [] \<and> cstr (mqtt_topic (config_loaded s)) = [] \<and>
       (fst (auto_connect s) \<longleftrightarrow> fst (attempt_wifi_connect (config_loaded s)) = ESP_OK) \<and>
       Wifi_connect \<in> set (trace (snd (auto_connect s))))"
proof (intro conjI allI impI)
  fix ch rest
  assume a: "uart_rx s = Byte ch # rest \<and> (ch = CR \<or> ch = LF) \<and>
       1 < len \<and> len < 2 ^ 32 \<and> len \<le> length (get_buf b s)"
  then have "uart_rx s = Byte ch # rest" "ch = CR \<or> ch = LF" "1 < len" "len < 2 ^ 32"
    "len \<le> length (get_buf b s)" by simp_all
  from read_input_empty_line [OF this, of prompt masked]
  show "\<exists>s'. read_input prompt b len masked s = Ret s' \<and> cstr (get_buf b s') = [] \<and>
             uart_rx s' = rest" by blast
next
  fix c1 c2 rest
  assume "uart_rx s = Byte c1 # Byte c2 # rest \<and> (c1 = CR \<or> c1 = LF) \<and>
       (c2 = CR \<or> c2 = LF) \<and> length (mqtt_broker s) = 64 \<and> length (mqtt_topic s) = 64"
  then have "uart_rx s = Byte c1 # Byte c2 # rest" "c1 = CR \<or> c1 = LF" "c2 = CR \<or> c2 = LF"
    "length (mqtt_broker s) = 64" "length (mqtt_topic s) = 64" by simp_all
  then show "\<exists>s'. mqtt_entry s = Ret s' \<and>
          nvs_writes (trace s')
            = nvs_writes (trace s) @
              (if open_fault (nvs s) = ESP_OK then [(''broker'', []), (''topic'', [])] else []) \<and>
          (open_fault (nvs s) = ESP_OK \<and> set_fault (nvs s) = ESP_OK \<longrightarrow>
             (\<exists>m. storage (nvs s') = Some m \<and> m ''broker'' = Some [] \<and> m ''topic'' = Some []))"
    by (rule mqtt_entry_empty)
next
  fix m
  assume "open_fault (nvs s) = ESP_OK \<and> storage (nvs s) = Some m \<and> m ''ssid'' = Some [] \<and>
       m ''pass'' = Some [] \<and> m ''broker'' = Some [] \<and> m ''topic'' = Some []"
  then have h: "open_fault (nvs s) = ESP_OK" "storage (nvs s) = Some m" "m ''ssid'' = Some []"
    "m ''pass'' = Some []" "m ''broker'' = Some []" "m ''topic'' = Some []" by simp_all
  note g = empty_config_passes_gate [OF h]
  from g(1) show "ssid_ok s" "pass_ok s" "broker_ok s" "topic_ok s" by simp_all
  from g(2) show "cstr (ssid (config_loaded s)) = []" "cstr (wifi_pass (config_loaded s)) = []"
    "cstr (mqtt_broker (config_loaded s)) = []" "cstr (mqtt_topic (config_loaded s)) = []"
    by simp_all
  from g(3) show "fst (auto_connect s) \<longleftrightarrow> fst (attempt_wifi_connect (config_loaded s)) = ESP_OK" .
  from g(4) show "Wifi_connect \<in> set (trace (snd (auto_connect s)))" .
qed

text \<open>A store whose four values are empty strings, and a driver that gets an address at once.\<close>

definition empty_config_node :: state where
  "empty_config_node =
     boot_state (flash_with [''ssid'' \<mapsto> [], ''pass'' \<mapsto> [], ''broker'' \<mapsto> [], ''topic'' \<mapsto> []])
       [Byte CR, Byte LF] [[IP_EVENT IP_EVENT_STA_GOT_IP]]"

theorem empty_fields_accepted_witness:
  "fst (auto_connect empty_config_node) \<and>
   Wifi_connect \<in> set (trace (snd (auto_connect empty_config_node))) \<and>
   (\<exists>s'. mqtt_entry empty_config_node = Ret s' \<and>
         nvs_writes (trace s') = [(''broker'', []), (''topic'', [])])"
proof -
  let ?s = "empty_config_node"
  let ?m = "[''ssid'' \<mapsto> [], ''pass'' \<mapsto> [], ''broker'' \<mapsto> [], ''topic'' \<mapsto> []] :: string \<rightharpoonup> string"
  note T = empty_fields_accepted [of ?s]
  have h: "open_fault (nvs ?s) = ESP_OK \<and> storage (nvs ?s) = Some ?m \<and> ?m ''ssid'' = Some [] \<and>
       ?m ''pass'' = Some [] \<and> ?m ''broker'' = Some [] \<and> ?m ''topic'' = Some []"
    by (simp add: empty_config_node_def boot_state_def flash_with_def)
  with T have g: "fst (auto_connect ?s) \<longleftrightarrow> fst (attempt_wifi_connect (config_loaded ?s)) = ESP_OK"
    "Wifi_connect \<in> set (trace (snd (auto_connect ?s)))"
    by blast+
  have "wifi_connected (polls 1 (link_requested (config_loaded ?s)))"
    by (simp add: polls_def vTaskDelay_def deliver_def run_handlers_def
      dispatch_def wifi_event_handler_def handler_emit_def emit_def link_requested_def
      esp_wifi_set_mode_def esp_wifi_set_config_def esp_wifi_start_def esp_wifi_connect_def
      config_loaded_def empty_config_node_def boot_state_def)
  then have "\<exists>k\<le>80. wifi_connected (polls k (link_requested (config_loaded ?s)))"
    by (intro exI [of _ 1]) simp
  then have ok: "fst (attempt_wifi_connect (config_loaded ?s)) = ESP_OK"
    by (simp only: attempt_ok_iff)
  have rx: "uart_rx ?s = Byte CR # Byte LF # [] \<and> (CR = CR \<or> CR = LF) \<and>
       (LF = CR \<or> LF = LF) \<and> length (mqtt_broker ?s) = 64 \<and> length (mqtt_topic ?s) = 64"
    by (simp add: empty_config_node_def boot_state_def)
  with T obtain s' where "mqtt_entry ?s = Ret s'"
    "nvs_writes (trace s')
       = nvs_writes (trace ?s) @
         (if open_fault (nvs ?s) = ESP_OK then [(''broker'', []), (''topic'', [])] else [])"
    by blast
  then have "\<exists>s'. mqtt_entry ?s = Ret s' \<and> nvs_writes (trace s') = [(''broker'', []), (''topic'', [])]"
    by (intro exI [of _ s']) (simp add: empty_config_node_def boot_state_def flash_with_def)
  with g ok show ?thesis by simp
qed

end
